theory Spec2Isabelle
  imports Complex_Main "HOL-Library.Multiset"
begin

section \<open>Modelling the Data Lake clients\<close>

text \<open>
  The model follows the classes \<open>DataLakePathClient\<close> and \<open>DataLakeFileClient\<close>. A
  remote call is a step of the environment: its outcome is read from a script, and every
  call that is issued is written to a trace, so that a statement about which calls are
  made is a statement about that trace. Tracing spans, abort signals, access conditions
  and HTTP headers are passed through by the source and decide no branch; they are left
  out. Numbers that the source declares as \<open>number\<close> and uses as counts, sizes or
  positions are integers here. The text of a \<open>RangeError\<close> names the limit where the
  source prints its value.
\<close>

section \<open>Data Lake path client: recursive access control changes\<close>

subsection \<open>Errors\<close>

text \<open>An error raised by the remote layer or by a caller-supplied callback.\<close>

type_synonym cause = string

text \<open>
  Modelled from the spec: the class \<open>DataLakeAclChangeFailedError\<close> is imported from
  \<open>./utils/DataLakeAclChangeFailedError\<close>; it is built from the caught error and the
  continuation token, which the constructor below keeps.
\<close>

datatype error =
    RangeError string
  | DataLakeAclChangeFailedError cause "string option"
  | Thrown cause

subsection \<open>Requests, responses and results\<close>

datatype PathSetAccessControlRecursiveMode = ModeSet | ModeModify | ModeRemove

text \<open>The options record of the remote \<open>setAccessControlRecursive\<close> operation.\<close>

record acl_request =
  req_mode :: PathSetAccessControlRecursiveMode
  req_acl :: string
  maxRecords :: "int option"
  req_continuation :: "string option"
  forceFlag :: "bool option"

record acl_response =
  continuation :: "string option"
  failureCount :: "int option"
  directoriesSuccessful :: "int option"
  filesSuccessful :: "int option"
  failedEntries :: "string list option"

record Counters =
  failedChangesCount :: int
  changedDirectoriesCount :: int
  changedFilesCount :: int

record PathChangeAccessControlRecursiveResponse =
  counters :: Counters
  continuationToken :: "string option"

record AccessControlChanges =
  batchFailures :: "string list option"
  batchCounters :: Counters
  aggregateCounters :: Counters
  progress_continuationToken :: "string option"

text \<open>
  \<open>onProgress\<close> is caller code: it may throw, which is the value \<open>Some e\<close>. The source
  hands it the counters object of the result; the model hands it the values of the
  counters at that moment, and takes the callback not to write to them. The serialised
  list \<open>toAclString(acl)\<close> is the argument \<open>acl\<close> of the functions below, and the
  failed entries of a response are passed on as they are.
\<close>

record PathChangeAccessControlRecursiveOptions =
  batchSize :: "int option"
  maxBatches :: "int option"
  opt_continuationToken :: "string option"
  continueOnFailure :: "bool option"
  onProgress :: "(AccessControlChanges \<Rightarrow> cause option) option"

datatype acl_event = RemoteCall acl_request | ProgressCall AccessControlChanges

text \<open>The script of the remote side: the outcome of the call with index \<open>k\<close>, from 0.\<close>

type_synonym acl_remote = "nat \<Rightarrow> cause + acl_response"

text \<open>JavaScript truthiness of \<open>string | undefined\<close>, and \<open>x || 0\<close> on \<open>number | undefined\<close>.\<close>

definition truthy :: "string option \<Rightarrow> bool" where
  "truthy t = (case t of None \<Rightarrow> False | Some s \<Rightarrow> s \<noteq> [])"

definition or0 :: "int option \<Rightarrow> int" where
  "or0 x = (case x of None \<Rightarrow> 0 | Some v \<Rightarrow> v)"

definition reachMaxBatches :: "PathChangeAccessControlRecursiveOptions \<Rightarrow> nat \<Rightarrow> bool" where
  "reachMaxBatches options batchCounter =
     (case maxBatches options of None \<Rightarrow> False | Some m \<Rightarrow> m \<le> int batchCounter)"

definition acl_request_of ::
  "PathSetAccessControlRecursiveMode \<Rightarrow> string \<Rightarrow> PathChangeAccessControlRecursiveOptions
     \<Rightarrow> string option \<Rightarrow> acl_request" where
  "acl_request_of mode acl options tok =
     \<lparr>req_mode = mode, req_acl = acl, maxRecords = batchSize options,
      req_continuation = tok, forceFlag = continueOnFailure options\<rparr>"

definition batch_counters :: "acl_response \<Rightarrow> Counters" where
  "batch_counters response =
     \<lparr>failedChangesCount = or0 (failureCount response),
      changedDirectoriesCount = or0 (directoriesSuccessful response),
      changedFilesCount = or0 (filesSuccessful response)\<rparr>"

definition add_counters :: "Counters \<Rightarrow> acl_response \<Rightarrow> Counters" where
  "add_counters c response =
     \<lparr>failedChangesCount = failedChangesCount c + or0 (failureCount response),
      changedDirectoriesCount = changedDirectoriesCount c + or0 (directoriesSuccessful response),
      changedFilesCount = changedFilesCount c + or0 (filesSuccessful response)\<rparr>"

definition update_result ::
  "PathChangeAccessControlRecursiveResponse \<Rightarrow> acl_response
     \<Rightarrow> PathChangeAccessControlRecursiveResponse" where
  "update_result result response =
     \<lparr>counters = add_counters (counters result) response,
      continuationToken = continuation response\<rparr>"

definition progress_of ::
  "PathChangeAccessControlRecursiveResponse \<Rightarrow> acl_response \<Rightarrow> AccessControlChanges" where
  "progress_of result response =
     \<lparr>batchFailures = failedEntries response,
      batchCounters = batch_counters response,
      aggregateCounters = counters result,
      progress_continuationToken = continuation response\<rparr>"

subsection \<open>The batch loop\<close>

text \<open>
  The \<open>do ... while\<close> loop of \<open>setAccessControlRecursiveInternal\<close>. The loop has no
  bound of its own when \<open>maxBatches\<close> is not given: a run that never leaves the loop
  is the value \<open>None\<close>.
\<close>

partial_function (option) acl_loop ::
  "PathSetAccessControlRecursiveMode \<Rightarrow> string \<Rightarrow> PathChangeAccessControlRecursiveOptions
     \<Rightarrow> acl_remote \<Rightarrow> string option \<Rightarrow> nat \<Rightarrow> PathChangeAccessControlRecursiveResponse
     \<Rightarrow> acl_event list
     \<Rightarrow> ((error + PathChangeAccessControlRecursiveResponse) \<times> acl_event list) option" where
  "acl_loop mode acl options remote tok batchCounter result trace =
     (case remote batchCounter of
        Inl e \<Rightarrow>
          Some (Inl (DataLakeAclChangeFailedError e tok),
                trace @ [RemoteCall (acl_request_of mode acl options tok)])
      | Inr response \<Rightarrow>
          (case onProgress options of
             None \<Rightarrow>
               (if truthy (continuation response)
                     \<and> \<not> reachMaxBatches options (Suc batchCounter)
                then acl_loop mode acl options remote (continuation response)
                       (Suc batchCounter) (update_result result response)
                       (trace @ [RemoteCall (acl_request_of mode acl options tok)])
                else Some (Inr (update_result result response),
                           trace @ [RemoteCall (acl_request_of mode acl options tok)]))
           | Some callback \<Rightarrow>
               (case callback (progress_of (update_result result response) response) of
                  Some e \<Rightarrow>
                    Some (Inl (Thrown e),
                          trace @ [RemoteCall (acl_request_of mode acl options tok),
                                   ProgressCall (progress_of (update_result result response) response)])
                | None \<Rightarrow>
                    (if truthy (continuation response)
                          \<and> \<not> reachMaxBatches options (Suc batchCounter)
                     then acl_loop mode acl options remote (continuation response)
                            (Suc batchCounter) (update_result result response)
                            (trace @ [RemoteCall (acl_request_of mode acl options tok),
                                      ProgressCall (progress_of (update_result result response) response)])
                     else Some (Inr (update_result result response),
                                trace @ [RemoteCall (acl_request_of mode acl options tok),
                                         ProgressCall (progress_of (update_result result response) response)])))))"

definition empty_result :: PathChangeAccessControlRecursiveResponse where
  "empty_result =
     \<lparr>counters = \<lparr>failedChangesCount = 0, changedDirectoriesCount = 0, changedFilesCount = 0\<rparr>,
      continuationToken = None\<rparr>"

definition below_one :: "int option \<Rightarrow> bool" where
  "below_one x = (case x of None \<Rightarrow> False | Some v \<Rightarrow> v < 1)"

definition setAccessControlRecursiveInternal ::
  "PathSetAccessControlRecursiveMode \<Rightarrow> string \<Rightarrow> PathChangeAccessControlRecursiveOptions
     \<Rightarrow> acl_remote
     \<Rightarrow> ((error + PathChangeAccessControlRecursiveResponse) \<times> acl_event list) option" where
  "setAccessControlRecursiveInternal mode acl options remote =
     (if below_one (maxBatches options)
      then Some (Inl (RangeError ''Options maxBatches must be larger than 0.''), [])
      else if below_one (batchSize options)
      then Some (Inl (RangeError ''Options batchSize must be larger than 0.''), [])
      else acl_loop mode acl options remote (opt_continuationToken options) 0 empty_result [])"

definition setAccessControlRecursive where
  "setAccessControlRecursive acl options remote =
     setAccessControlRecursiveInternal ModeSet acl options remote"

definition updateAccessControlRecursive where
  "updateAccessControlRecursive acl options remote =
     setAccessControlRecursiveInternal ModeModify acl options remote"

definition removeAccessControlRecursive where
  "removeAccessControlRecursive acl options remote =
     setAccessControlRecursiveInternal ModeRemove acl options remote"

subsection \<open>What a run of the batch loop looks like\<close>

text \<open>
  The functions of this subsection describe a run in closed form, for a given sequence
  \<open>resp\<close> of successful responses: the result object after \<open>k\<close> batches, the token
  that batch \<open>k\<close> sends, and the events of batch \<open>k\<close>. The theorems show that the loop
  above produces exactly these.
\<close>

fun acl_result_after :: "(nat \<Rightarrow> acl_response) \<Rightarrow> nat \<Rightarrow> PathChangeAccessControlRecursiveResponse" where
  "acl_result_after resp 0 = empty_result"
| "acl_result_after resp (Suc k) = update_result (acl_result_after resp k) (resp k)"

fun acl_token_before ::
  "PathChangeAccessControlRecursiveOptions \<Rightarrow> (nat \<Rightarrow> acl_response) \<Rightarrow> nat \<Rightarrow> string option" where
  "acl_token_before options resp 0 = opt_continuationToken options"
| "acl_token_before options resp (Suc k) = continuation (resp k)"

definition batch_events where
  "batch_events mode acl options resp k =
     RemoteCall (acl_request_of mode acl options (acl_token_before options resp k)) #
     (case onProgress options of None \<Rightarrow> []
      | Some callback \<Rightarrow> [ProgressCall (progress_of (acl_result_after resp (Suc k)) (resp k))])"

text \<open>The progress callback, if there is one, does not throw.\<close>

definition quiet :: "PathChangeAccessControlRecursiveOptions \<Rightarrow> bool" where
  "quiet options = (case onProgress options of None \<Rightarrow> True | Some callback \<Rightarrow> \<forall>p. callback p = None)"

text \<open>The loop condition after batch \<open>k\<close>.\<close>

definition continues where
  "continues options resp k = (truthy (continuation (resp k)) \<and> \<not> reachMaxBatches options (Suc k))"

text \<open>The remote calls of a trace, and the progress events of a trace, in order.\<close>

fun remote_calls :: "acl_event list \<Rightarrow> acl_request list" where
  "remote_calls [] = []"
| "remote_calls (RemoteCall r # es) = r # remote_calls es"
| "remote_calls (ProgressCall p # es) = remote_calls es"

fun progress_calls :: "acl_event list \<Rightarrow> AccessControlChanges list" where
  "progress_calls [] = []"
| "progress_calls (RemoteCall r # es) = progress_calls es"
| "progress_calls (ProgressCall p # es) = p # progress_calls es"

text \<open>The sums of the counts of the first \<open>k\<close> responses, a missing count being 0.\<close>

definition totals :: "(nat \<Rightarrow> acl_response) \<Rightarrow> nat \<Rightarrow> Counters" where
  "totals resp k =
     \<lparr>failedChangesCount = (\<Sum>i<k. or0 (failureCount (resp i))),
      changedDirectoriesCount = (\<Sum>i<k. or0 (directoriesSuccessful (resp i))),
      changedFilesCount = (\<Sum>i<k. or0 (filesSuccessful (resp i)))\<rparr>"

definition nonneg_counts :: "acl_response \<Rightarrow> bool" where
  "nonneg_counts response =
     (0 \<le> or0 (failureCount response) \<and> 0 \<le> or0 (directoriesSuccessful response)
      \<and> 0 \<le> or0 (filesSuccessful response))"

text \<open>Example inputs: responses by token, options by batch size, batch limit and callback.\<close>

definition demo_response :: "string \<Rightarrow> acl_response" where
  "demo_response t =
     \<lparr>continuation = Some t, failureCount = Some 1, directoriesSuccessful = None,
      filesSuccessful = Some 3, failedEntries = None\<rparr>"

definition demo_options :: "int option \<Rightarrow> int option \<Rightarrow> bool \<Rightarrow> PathChangeAccessControlRecursiveOptions" where
  "demo_options b m cb =
     \<lparr>batchSize = b, maxBatches = m, opt_continuationToken = None, continueOnFailure = None,
      onProgress = (if cb then Some (\<lambda>p. None) else None)\<rparr>"

definition demo_script :: "nat \<Rightarrow> acl_response" where
  "demo_script k = (if k = 0 then demo_response ''A'' else demo_response '''')"

subsection \<open>How the operation hands over its outcome\<close>

text \<open>
  What a caller has in hand when the call gives control back: an exception thrown by the
  call itself, or the promise the call returned, with what that promise settles with
  (\<open>None\<close> if it never settles). \<open>setAccessControlRecursiveInternal\<close> and the public
  methods \<open>setAccessControlRecursive\<close>, \<open>updateAccessControlRecursive\<close> and
  \<open>removeAccessControlRecursive\<close> are declared \<open>async\<close>: a call returns a promise, and a
  \<open>throw\<close> in the body, also one before the first \<open>await\<close>, rejects that promise. The
  public methods return the promise of the internal one, so theirs settles as it does.
\<close>

datatype 'a call_result = ThrowsSynchronously error | ReturnsPromise "(error + 'a) option"

definition async_function :: "((error + 'a) \<times> 'e list) option \<Rightarrow> 'a call_result" where
  "async_function run = ReturnsPromise (map_option fst run)"

definition setAccessControlRecursiveInternal_call where
  "setAccessControlRecursiveInternal_call mode acl options remote =
     async_function (setAccessControlRecursiveInternal mode acl options remote)"

definition setAccessControlRecursive_call where
  "setAccessControlRecursive_call acl options remote =
     async_function (setAccessControlRecursive acl options remote)"

definition updateAccessControlRecursive_call where
  "updateAccessControlRecursive_call acl options remote =
     async_function (updateAccessControlRecursive acl options remote)"

definition removeAccessControlRecursive_call where
  "removeAccessControlRecursive_call acl options remote =
     async_function (removeAccessControlRecursive acl options remote)"

text \<open>An example remote side: every call succeeds and returns the token \<open>A\<close>.\<close>

definition demo_acl_remote :: acl_remote where
  "demo_acl_remote k = Inr (demo_response ''A'')"

subsection \<open>Deleting a path\<close>

text \<open>
  The options record of the remote \<open>deleteMethod\<close> operation, and its response. The index
  of the call in the script is kept next to the loop variables of the source.
\<close>

record delete_request =
  del_continuation :: "string option"
  del_recursive :: "bool option"

record PathDeleteResponse =
  delete_continuation :: "string option"
  requestId :: "string option"

type_synonym delete_remote = "nat \<Rightarrow> cause + PathDeleteResponse"

text \<open>
  The \<open>do ... while (continuation !== undefined && continuation !== "")\<close> loop of
  \<open>DataLakePathClient.delete\<close>. An error of the remote call is rethrown as it is.
\<close>

partial_function (option) delete_loop ::
  "bool option \<Rightarrow> delete_remote \<Rightarrow> string option \<Rightarrow> nat \<Rightarrow> delete_request list
     \<Rightarrow> ((error + PathDeleteResponse) \<times> delete_request list) option" where
  "delete_loop recursive remote tok k trace =
     (case remote k of
        Inl e \<Rightarrow>
          Some (Inl (Thrown e),
                trace @ [\<lparr>del_continuation = tok, del_recursive = recursive\<rparr>])
      | Inr response \<Rightarrow>
          (if delete_continuation response \<noteq> None \<and> delete_continuation response \<noteq> Some []
           then delete_loop recursive remote (delete_continuation response) (Suc k)
                  (trace @ [\<lparr>del_continuation = tok, del_recursive = recursive\<rparr>])
           else Some (Inr response,
                      trace @ [\<lparr>del_continuation = tok, del_recursive = recursive\<rparr>])))"

definition DataLakePathClient_delete ::
  "bool option \<Rightarrow> delete_remote
     \<Rightarrow> ((error + PathDeleteResponse) \<times> delete_request list) option" where
  "DataLakePathClient_delete recursive remote = delete_loop recursive remote None 0 []"

text \<open>The request of call \<open>k\<close> when the responses before it are \<open>resp\<close>.\<close>

fun delete_request_at ::
  "bool option \<Rightarrow> (nat \<Rightarrow> PathDeleteResponse) \<Rightarrow> nat \<Rightarrow> delete_request" where
  "delete_request_at recursive resp 0 = \<lparr>del_continuation = None, del_recursive = recursive\<rparr>"
| "delete_request_at recursive resp (Suc k) =
     \<lparr>del_continuation = delete_continuation (resp k), del_recursive = recursive\<rparr>"

text \<open>The loop condition on a response, and example responses.\<close>

definition more_to_delete :: "PathDeleteResponse \<Rightarrow> bool" where
  "more_to_delete response =
     (delete_continuation response \<noteq> None \<and> delete_continuation response \<noteq> Some [])"

definition demo_delete_response :: "string option \<Rightarrow> PathDeleteResponse" where
  "demo_delete_response t = \<lparr>delete_continuation = t, requestId = Some ''r''\<rparr>"

definition demo_delete_script :: "nat \<Rightarrow> PathDeleteResponse" where
  "demo_delete_script k =
     (if k = 0 then demo_delete_response (Some ''t1'')
      else if k = 1 then demo_delete_response (Some ''t2'')
      else demo_delete_response None)"

section \<open>Data Lake file client: upload of a seekable payload\<close>

subsection \<open>Limits and options\<close>

text \<open>
  The limits are imported by the source from \<open>./utils/constants\<close>; the functions below
  take them as a parameter.
\<close>

record limits =
  FILE_MAX_SIZE_BYTES :: int
  BLOCK_BLOB_MAX_BLOCKS :: int
  FILE_UPLOAD_DEFAULT_CHUNK_SIZE :: int
  FILE_UPLOAD_MAX_CHUNK_SIZE :: int
  FILE_MAX_SINGLE_UPLOAD_THRESHOLD :: int
  DEFAULT_HIGH_LEVEL_CONCURRENCY :: int

text \<open>
  \<open>upload_onProgress\<close> is the \<open>onProgress\<close> option; it receives \<open>loadedBytes\<close> and may
  throw.
\<close>

record FileParallelUploadOptions =
  chunkSize :: "int option"
  maxConcurrency :: "int option"
  singleUploadThreshold :: "int option"
  upload_onProgress :: "(int \<Rightarrow> cause option) option"

text \<open>
  The remote side of one upload: the outcome of the create call, of the append call at
  a given position and length, and of the flush call at a given position.
\<close>

record 'r file_remote =
  createPath :: "cause + 'r"
  appendData :: "int \<Rightarrow> int \<Rightarrow> cause option"
  flushData :: "int \<Rightarrow> cause + 'r"

text \<open>
  What an upload does, in order: a remote call being issued (\<open>CreateCall\<close>,
  \<open>AppendCall position length\<close>, \<open>FlushCall position\<close>), an append call settling, and
  the progress callback being called.
\<close>

datatype upload_event =
    CreateCall
  | AppendCall int int
  | AppendDone int int
  | UploadProgress int
  | FlushCall int

text \<open>\<open>!x\<close> on \<open>number | undefined\<close>: true for \<open>undefined\<close> and for 0.\<close>

definition unset :: "int option \<Rightarrow> bool" where
  "unset x = (case x of None \<Rightarrow> True | Some v \<Rightarrow> v = 0)"

definition resolved_chunkSize :: "limits \<Rightarrow> int \<Rightarrow> FileParallelUploadOptions \<Rightarrow> int" where
  "resolved_chunkSize L sz options =
     (if unset (chunkSize options)
      then (if \<lceil>real_of_int sz / real_of_int (BLOCK_BLOB_MAX_BLOCKS L)\<rceil>
                 < FILE_UPLOAD_DEFAULT_CHUNK_SIZE L
            then FILE_UPLOAD_DEFAULT_CHUNK_SIZE L
            else \<lceil>real_of_int sz / real_of_int (BLOCK_BLOB_MAX_BLOCKS L)\<rceil>)
      else or0 (chunkSize options))"

definition resolved_maxConcurrency :: "limits \<Rightarrow> FileParallelUploadOptions \<Rightarrow> int" where
  "resolved_maxConcurrency L options =
     (if unset (maxConcurrency options) then DEFAULT_HIGH_LEVEL_CONCURRENCY L
      else or0 (maxConcurrency options))"

definition resolved_singleUploadThreshold :: "limits \<Rightarrow> FileParallelUploadOptions \<Rightarrow> int" where
  "resolved_singleUploadThreshold L options =
     (if unset (singleUploadThreshold options) then FILE_MAX_SINGLE_UPLOAD_THRESHOLD L
      else or0 (singleUploadThreshold options))"

definition numBlocks :: "int \<Rightarrow> int \<Rightarrow> int" where
  "numBlocks sz chunk = \<lfloor>real_of_int (sz - 1) / real_of_int chunk\<rfloor> + 1"

text \<open>
  The operation queued for block \<open>i\<close>: the position and the length of its append call.
\<close>

definition chunk_operation :: "int \<Rightarrow> int \<Rightarrow> int \<Rightarrow> int \<Rightarrow> int \<times> int" where
  "chunk_operation sz chunk blocks i =
     (chunk * i,
      (if i = blocks - 1 then sz else chunk * i + chunk) - chunk * i)"

definition operations :: "int \<Rightarrow> int \<Rightarrow> int \<Rightarrow> (int \<times> int) list" where
  "operations sz chunk blocks =
     map (\<lambda>i. chunk_operation sz chunk blocks (int i)) [0..<nat blocks]"

text \<open>
  The rest of a queued operation once its append call has settled: the error of the
  call, or the update of \<open>transferProgress\<close> and the progress callback.
\<close>

definition settle_operation ::
  "'r file_remote \<Rightarrow> (int \<Rightarrow> cause option) option \<Rightarrow> int \<times> int \<Rightarrow> int
     \<Rightarrow> cause option \<times> int \<times> upload_event list" where
  "settle_operation remote callback operation transferProgress =
     (case appendData remote (fst operation) (snd operation) of
        Some e \<Rightarrow> (Some e, transferProgress, [AppendDone (fst operation) (snd operation)])
      | None \<Rightarrow>
          (case callback of
             None \<Rightarrow>
               (None, transferProgress + snd operation,
                [AppendDone (fst operation) (snd operation)])
           | Some f \<Rightarrow>
               (f (transferProgress + snd operation), transferProgress + snd operation,
                [AppendDone (fst operation) (snd operation),
                 UploadProgress (transferProgress + snd operation)])))"

subsection \<open>The worker pool\<close>

datatype batch_result = Resolved | Rejected cause | Stalled

text \<open>
  Modelled from the spec: the class \<open>Batch\<close> is imported from \<open>./utils/Batch\<close>. Following
  section 4.3 of the specification, the pool starts queued operations in queue order
  while fewer than \<open>concurrency\<close> are in flight, resolves when every queued operation has
  completed and rejects with the error of the first operation that fails, after which
  nothing more is started. Which operation in flight settles next is not specified:
  it is read from \<open>sched\<close>, a list of choices (taken modulo the number in flight; the
  oldest one once the list is used up), so that a statement for every \<open>sched\<close> is a
  statement for every completion order. A pool that can start nothing while operations
  are queued never settles (\<open>Stalled\<close>).
\<close>

definition started :: "int \<Rightarrow> 'a list \<Rightarrow> 'a list \<Rightarrow> 'a list" where
  "started concurrency pending actives = take (nat (concurrency - int (length actives))) pending"

definition unstarted :: "int \<Rightarrow> 'a list \<Rightarrow> 'a list \<Rightarrow> 'a list" where
  "unstarted concurrency pending actives = drop (nat (concurrency - int (length actives))) pending"

definition choice :: "nat list \<Rightarrow> nat \<Rightarrow> nat" where
  "choice sched n = (case sched of [] \<Rightarrow> 0 | c # cs \<Rightarrow> c mod n)"

definition remove_nth :: "nat \<Rightarrow> 'a list \<Rightarrow> 'a list" where
  "remove_nth i xs = take i xs @ drop (Suc i) xs"

definition issue :: "int \<times> int \<Rightarrow> upload_event" where
  "issue operation = AppendCall (fst operation) (snd operation)"

function batch_run ::
  "int \<Rightarrow> ((int \<times> int) \<Rightarrow> int \<Rightarrow> cause option \<times> int \<times> upload_event list) \<Rightarrow> nat list
     \<Rightarrow> (int \<times> int) list \<Rightarrow> (int \<times> int) list \<Rightarrow> int
     \<Rightarrow> batch_result \<times> upload_event list" where
  "batch_run concurrency settle sched pending actives transferProgress =
     (if actives @ started concurrency pending actives = []
      then (if pending = [] then Resolved else Stalled, [])
      else
        (case settle
                ((actives @ started concurrency pending actives)
                   ! choice sched (length (actives @ started concurrency pending actives)))
                transferProgress of
           (Some e, transferProgress', events) \<Rightarrow>
             (Rejected e, map issue (started concurrency pending actives) @ events)
         | (None, transferProgress', events) \<Rightarrow>
             (case batch_run concurrency settle (tl sched)
                     (unstarted concurrency pending actives)
                     (remove_nth
                        (choice sched (length (actives @ started concurrency pending actives)))
                        (actives @ started concurrency pending actives))
                     transferProgress' of
                (result, rest) \<Rightarrow>
                  (result, map issue (started concurrency pending actives) @ events @ rest))))"
  by pat_completeness auto

termination
proof (relation "measure (\<lambda>(concurrency, settle, sched, pending, actives, transferProgress).
                      length pending + length actives)", goal_cases)
  case 1
  show ?case by simp
next
  case (2 concurrency settle sched pending actives transferProgress x y z w)
  let ?running = "actives @ started concurrency pending actives"
  let ?i = "choice sched (length ?running)"
  have ne: "0 < length ?running" using 2(1) by simp
  then have "?i < length ?running"
    by (simp add: choice_def split: list.splits)
  then have rm: "length (remove_nth ?i ?running) = length ?running - 1"
    by (auto simp: remove_nth_def)
  have sp: "length (started concurrency pending actives)
              + length (unstarted concurrency pending actives) = length pending"
    by (simp add: started_def unstarted_def)
  have "length (unstarted concurrency pending actives) + length (remove_nth ?i ?running)
          < length pending + length actives"
    using ne sp rm length_append[of actives "started concurrency pending actives"] by linarith
  then show ?case by simp
qed

subsection \<open>The upload\<close>

text \<open>An awaited remote call that fails throws its error; the source rethrows it.\<close>

definition settled :: "cause + 'r \<Rightarrow> error + 'r" where
  "settled outcome = (case outcome of Inl e \<Rightarrow> Inl (Thrown e) | Inr r \<Rightarrow> Inr r)"

text \<open>
  \<open>uploadSeekableInternal\<close>, with the source's \<open>size\<close> written \<open>sz\<close>. The result is the
  value the returned promise settles with (\<open>None\<close> if it never settles) and the events
  up to that moment. In the single-shot branch \<open>onProgress\<close> is handed to the transport
  of the append call and is not called by this function.
\<close>

definition uploadSeekableInternal ::
  "limits \<Rightarrow> 'r file_remote \<Rightarrow> nat list \<Rightarrow> int \<Rightarrow> FileParallelUploadOptions
     \<Rightarrow> (error + 'r) option \<times> upload_event list" where
  "uploadSeekableInternal L remote sched sz options =
     (if sz > FILE_MAX_SIZE_BYTES L
      then (Some (Inl (RangeError ''size must be <= FILE_MAX_SIZE_BYTES.'')), [])
      else if sz = 0 then (Some (settled (createPath remote)), [CreateCall])
      else
        (case createPath remote of
           Inl e \<Rightarrow> (Some (Inl (Thrown e)), [CreateCall])
         | Inr createRes \<Rightarrow>
             (if resolved_chunkSize L sz options < 1
                   \<or> resolved_chunkSize L sz options > FILE_UPLOAD_MAX_CHUNK_SIZE L
              then (Some (Inl (RangeError
                      ''chunkSize option must be >= 1 and <= FILE_UPLOAD_MAX_CHUNK_SIZE'')),
                    [CreateCall])
              else if resolved_maxConcurrency L options \<le> 0
              then (Some (Inl (RangeError ''maxConcurrency must be > 0.'')), [CreateCall])
              else if resolved_singleUploadThreshold L options < 1
                   \<or> resolved_singleUploadThreshold L options > FILE_MAX_SINGLE_UPLOAD_THRESHOLD L
              then (Some (Inl (RangeError
                      ''singleUploadThreshold option must be >= 1 and <= FILE_MAX_SINGLE_UPLOAD_THRESHOLD'')),
                    [CreateCall])
              else if sz \<le> resolved_singleUploadThreshold L options
              then
                (case appendData remote 0 sz of
                   Some e \<Rightarrow>
                     (Some (Inl (Thrown e)), [CreateCall, AppendCall 0 sz, AppendDone 0 sz])
                 | None \<Rightarrow>
                     (Some (settled (flushData remote sz)),
                      [CreateCall, AppendCall 0 sz, AppendDone 0 sz, FlushCall sz]))
              else if numBlocks sz (resolved_chunkSize L sz options) > BLOCK_BLOB_MAX_BLOCKS L
              then (Some (Inl (RangeError
                      ''The data's size is too big or the chunkSize is too small; the number of chunks must be <= BLOCK_BLOB_MAX_BLOCKS'')),
                    [CreateCall])
              else
                (case batch_run (resolved_maxConcurrency L options)
                        (settle_operation remote (upload_onProgress options)) sched
                        (operations sz (resolved_chunkSize L sz options)
                           (numBlocks sz (resolved_chunkSize L sz options)))
                        [] 0 of
                   (Rejected e, events) \<Rightarrow> (Some (Inl (Thrown e)), CreateCall # events)
                 | (Stalled, events) \<Rightarrow> (None, CreateCall # events)
                 | (Resolved, events) \<Rightarrow>
                     (Some (settled (flushData remote sz)),
                      CreateCall # events @ [FlushCall sz])))))"

subsection \<open>Reading a trace of the upload\<close>

fun remote_call :: "upload_event \<Rightarrow> bool" where
  "remote_call CreateCall = True"
| "remote_call (AppendCall position len) = True"
| "remote_call (FlushCall position) = True"
| "remote_call (AppendDone position len) = False"
| "remote_call (UploadProgress loaded) = False"

fun appends_done :: "upload_event list \<Rightarrow> (int \<times> int) list" where
  "appends_done [] = []"
| "appends_done (AppendDone position len # es) = (position, len) # appends_done es"
| "appends_done (e # es) = appends_done es"

text \<open>The number of append calls issued and not yet settled, at the end of a trace.\<close>

fun delta :: "upload_event \<Rightarrow> int" where
  "delta (AppendCall position len) = 1"
| "delta (AppendDone position len) = - 1"
| "delta e = 0"

fun in_flight :: "upload_event list \<Rightarrow> int" where
  "in_flight [] = 0"
| "in_flight (e # es) = delta e + in_flight es"

text \<open>Starting from \<open>c\<close> calls in flight, the number in flight stays at or below \<open>N\<close>.\<close>

fun stays_within :: "int \<Rightarrow> int \<Rightarrow> upload_event list \<Rightarrow> bool" where
  "stays_within N c [] = (c \<le> N)"
| "stays_within N c (e # es) = (c \<le> N \<and> stays_within N (c + delta e) es)"

text \<open>The progress callback, if there is one, does not throw.\<close>

definition quiet_upload :: "FileParallelUploadOptions \<Rightarrow> bool" where
  "quiet_upload options =
     (case upload_onProgress options of None \<Rightarrow> True | Some f \<Rightarrow> \<forall>loaded. f loaded = None)"

text \<open>Example limits and an example remote side on which every call succeeds.\<close>

definition demo_limits :: limits where
  "demo_limits =
     \<lparr>FILE_MAX_SIZE_BYTES = 5242880000000, BLOCK_BLOB_MAX_BLOCKS = 50000,
      FILE_UPLOAD_DEFAULT_CHUNK_SIZE = 8388608, FILE_UPLOAD_MAX_CHUNK_SIZE = 104857600,
      FILE_MAX_SINGLE_UPLOAD_THRESHOLD = 104857600, DEFAULT_HIGH_LEVEL_CONCURRENCY = 5\<rparr>"

definition demo_remote :: "string file_remote" where
  "demo_remote =
     \<lparr>createPath = Inr ''created'', appendData = (\<lambda>position len. None),
      flushData = (\<lambda>position. Inr ''flushed'')\<rparr>"

definition demo_upload_options ::
  "int option \<Rightarrow> int option \<Rightarrow> int option \<Rightarrow> FileParallelUploadOptions" where
  "demo_upload_options c m t =
     \<lparr>chunkSize = c, maxConcurrency = m, singleUploadThreshold = t,
      upload_onProgress = Some (\<lambda>loaded. None)\<rparr>"
text \<open>The options pass the checks that follow the create call.\<close>

definition upload_options_valid :: "limits \<Rightarrow> int \<Rightarrow> FileParallelUploadOptions \<Rightarrow> bool" where
  "upload_options_valid L sz options =
     (1 \<le> resolved_chunkSize L sz options
      \<and> resolved_chunkSize L sz options \<le> FILE_UPLOAD_MAX_CHUNK_SIZE L
      \<and> 0 < resolved_maxConcurrency L options
      \<and> 1 \<le> resolved_singleUploadThreshold L options
      \<and> resolved_singleUploadThreshold L options \<le> FILE_MAX_SINGLE_UPLOAD_THRESHOLD L)"
text \<open>
  The chunks as the specification describes them: \<open>ceil(size / C)\<close> of them, laid end to
  end from position 0, each of length \<open>C\<close> but the last, which takes what is left.
\<close>

definition expected_chunks :: "int \<Rightarrow> int \<Rightarrow> (int \<times> int) list" where
  "expected_chunks sz c =
     map (\<lambda>i. (c * int i,
               if Suc i = nat \<lceil>real_of_int sz / real_of_int c\<rceil>
               then sz - c * (\<lceil>real_of_int sz / real_of_int c\<rceil> - 1) else c))
         [0..<nat \<lceil>real_of_int sz / real_of_int c\<rceil>]"

section \<open>Properties of the recursive access control loop\<close>

lemma acl_loop_step:
  assumes "remote j = Inr (resp j)" "quiet options"
  shows "acl_loop mode acl options remote (acl_token_before options resp j) j (acl_result_after resp j) trace =
     (if continues options resp j
      then acl_loop mode acl options remote (acl_token_before options resp (Suc j)) (Suc j)
             (acl_result_after resp (Suc j)) (trace @ batch_events mode acl options resp j)
      else Some (Inr (acl_result_after resp (Suc j)), trace @ batch_events mode acl options resp j))"
  using assms
  by (subst acl_loop.simps) (auto simp add: quiet_def continues_def batch_events_def split: option.splits)

lemma acl_loop_run:
  assumes "\<forall>k. j \<le> k \<and> k \<le> n \<longrightarrow> remote k = Inr (resp k)"
      and "quiet options"
      and "\<forall>k. j \<le> k \<and> k < n \<longrightarrow> continues options resp k"
      and "\<not> continues options resp n"
      and "j \<le> n"
  shows "acl_loop mode acl options remote (acl_token_before options resp j) j
           (acl_result_after resp j) trace =
         Some (Inr (acl_result_after resp (Suc n)),
               trace @ concat (map (batch_events mode acl options resp) [j..<Suc n]))"
  using assms
proof (induction "n - j" arbitrary: j trace)
  case 0
  then have "j = n" by simp
  with 0 show ?case by (simp add: acl_loop_step)
next
  case (Suc d)
  then have lt: "j < n" by simp
  have st: "remote j = Inr (resp j)" using Suc.prems lt by simp
  have co: "continues options resp j" using Suc.prems lt by simp
  have ih: "acl_loop mode acl options remote (acl_token_before options resp (Suc j)) (Suc j)
           (acl_result_after resp (Suc j)) (trace @ batch_events mode acl options resp j) =
         Some (Inr (acl_result_after resp (Suc n)),
               (trace @ batch_events mode acl options resp j) @ concat (map (batch_events mode acl options resp) [Suc j..<Suc n]))"
    using Suc.hyps(1)[of "Suc j"] Suc.hyps(2) Suc.prems lt by (intro Suc.hyps(1)) auto
  have up: "[j..<Suc n] = j # [Suc j..<Suc n]" using lt by (simp add: upt_conv_Cons)
  have "acl_loop mode acl options remote (acl_token_before options resp j) j
           (acl_result_after resp j) trace =
        acl_loop mode acl options remote (acl_token_before options resp (Suc j)) (Suc j)
           (acl_result_after resp (Suc j)) (trace @ batch_events mode acl options resp j)"
    using acl_loop_step[of remote j resp options mode acl trace] st Suc.prems(2) co by simp
  then show ?case
    by (simp only: ih up list.map concat.simps append_assoc)
qed

lemma remote_calls_append: "remote_calls (xs @ ys) = remote_calls xs @ remote_calls ys"
  by (induction xs rule: remote_calls.induct) simp_all

lemma progress_calls_append: "progress_calls (xs @ ys) = progress_calls xs @ progress_calls ys"
  by (induction xs rule: progress_calls.induct) simp_all

lemma remote_calls_batches:
  "remote_calls (concat (map (batch_events mode acl options resp) ks)) =
     map (\<lambda>k. acl_request_of mode acl options (acl_token_before options resp k)) ks"
  by (induction ks) (simp_all add: remote_calls_append batch_events_def split: option.splits)

lemma progress_calls_batches:
  "progress_calls (concat (map (batch_events mode acl options resp) ks)) =
     (case onProgress options of None \<Rightarrow> []
      | Some callback \<Rightarrow> map (\<lambda>k. progress_of (acl_result_after resp (Suc k)) (resp k)) ks)"
  by (induction ks) (simp_all add: progress_calls_append batch_events_def split: option.splits)

lemma acl_loop_diverges:
  assumes "acl_loop mode acl options remote tok j result trace = Some y"
  shows "\<not> (quiet options \<and> (\<forall>k\<ge>j. remote k = Inr (resp k) \<and> continues options resp k))"
  using assms
proof (induction arbitrary: resp rule: acl_loop.raw_induct[rotated 1, consumes 1, case_names step])
  case (step loop mode acl options remote tok j result trace y)
  show ?case
  proof
    assume a: "quiet options \<and> (\<forall>k\<ge>j. remote k = Inr (resp k) \<and> continues options resp k)"
    then have r: "remote j = Inr (resp j)" and c: "continues options resp j" by auto
    from a have nxt: "quiet options \<and> (\<forall>k\<ge>Suc j. remote k = Inr (resp k) \<and> continues options resp k)"
      by auto
    from a have q: "quiet options" by simp
    from step(2) r c q obtain tok' result' trace' where "loop mode acl options remote tok' (Suc j) result' trace' = Some y"
      by (auto simp: continues_def quiet_def split: option.splits)
    from step(1)[OF this, of resp] nxt show False by simp
  qed
qed

lemma acl_loop_fails:
  assumes "\<forall>k. j \<le> k \<and> k < n \<longrightarrow> remote k = Inr (resp k) \<and> continues options resp k"
      and "quiet options"
      and "remote n = Inl e"
      and "j \<le> n"
  shows "acl_loop mode acl options remote (acl_token_before options resp j) j
           (acl_result_after resp j) trace =
         Some (Inl (DataLakeAclChangeFailedError e (acl_token_before options resp n)),
               trace @ concat (map (batch_events mode acl options resp) [j..<n])
                 @ [RemoteCall (acl_request_of mode acl options (acl_token_before options resp n))])"
  using assms
proof (induction "n - j" arbitrary: j trace)
  case 0
  then have "j = n" by simp
  with 0 show ?case by (subst acl_loop.simps) simp
next
  case (Suc d)
  then have lt: "j < n" by simp
  have st: "remote j = Inr (resp j)" and co: "continues options resp j"
    using Suc.prems lt by simp_all
  have ih: "acl_loop mode acl options remote (acl_token_before options resp (Suc j)) (Suc j)
           (acl_result_after resp (Suc j)) (trace @ batch_events mode acl options resp j) =
         Some (Inl (DataLakeAclChangeFailedError e (acl_token_before options resp n)),
               (trace @ batch_events mode acl options resp j)
                 @ concat (map (batch_events mode acl options resp) [Suc j..<n])
                 @ [RemoteCall (acl_request_of mode acl options (acl_token_before options resp n))])"
    using Suc.hyps(2) Suc.prems lt by (intro Suc.hyps(1)) auto
  have up: "[j..<n] = j # [Suc j..<n]" using lt by (simp add: upt_conv_Cons)
  have "acl_loop mode acl options remote (acl_token_before options resp j) j
           (acl_result_after resp j) trace =
        acl_loop mode acl options remote (acl_token_before options resp (Suc j)) (Suc j)
           (acl_result_after resp (Suc j)) (trace @ batch_events mode acl options resp j)"
    using acl_loop_step[of remote j resp options mode acl trace] st Suc.prems(2) co by simp
  then show ?case
    by (simp only: ih up list.map concat.simps append_assoc)
qed

lemma failed_total:
  "failedChangesCount (counters (acl_result_after resp k)) = (\<Sum>i<k. or0 (failureCount (resp i)))"
  by (induction k) (simp_all add: empty_result_def update_result_def add_counters_def)

lemma directories_total:
  "changedDirectoriesCount (counters (acl_result_after resp k)) =
     (\<Sum>i<k. or0 (directoriesSuccessful (resp i)))"
  by (induction k) (simp_all add: empty_result_def update_result_def add_counters_def)

lemma files_total:
  "changedFilesCount (counters (acl_result_after resp k)) = (\<Sum>i<k. or0 (filesSuccessful (resp i)))"
  by (induction k) (simp_all add: empty_result_def update_result_def add_counters_def)

lemma token_after: "continuationToken (acl_result_after resp (Suc k)) = continuation (resp k)"
  by (simp add: update_result_def)

lemma counters_totals: "counters (acl_result_after resp k) = totals resp k"
  by (induction k) (simp_all add: totals_def empty_result_def update_result_def add_counters_def)

lemma aggregate_progress:
  "aggregateCounters (progress_of (acl_result_after resp (Suc k)) (resp k)) = totals resp (Suc k)"
  by (simp only: progress_of_def AccessControlChanges.simps counters_totals)

lemma acl_internal_loop:
  assumes "\<not> below_one (maxBatches options)" "\<not> below_one (batchSize options)"
  shows "setAccessControlRecursiveInternal mode acl options remote =
           acl_loop mode acl options remote (acl_token_before options resp 0) 0
             (acl_result_after resp 0) []"
  using assms by (simp add: setAccessControlRecursiveInternal_def)

lemma acl_returns:
  assumes "\<not> below_one (maxBatches options)" "\<not> below_one (batchSize options)"
      and "quiet options"
      and "\<forall>k<n. continues options resp k" and "\<not> continues options resp n"
  shows "setAccessControlRecursiveInternal mode acl options (\<lambda>k. Inr (resp k)) =
           Some (Inr (acl_result_after resp (Suc n)),
                 concat (map (batch_events mode acl options resp) [0..<Suc n]))"
proof -
  have "acl_loop mode acl options (\<lambda>k. Inr (resp k)) (acl_token_before options resp 0) 0
          (acl_result_after resp 0) [] =
        Some (Inr (acl_result_after resp (Suc n)),
              [] @ concat (map (batch_events mode acl options resp) [0..<Suc n]))"
    using assms(3-5) by (intro acl_loop_run) simp_all
  then show ?thesis
    by (simp only: acl_internal_loop[OF assms(1,2), of mode acl _ resp] append_Nil)
qed

lemma reach_exact:
  assumes "\<not> below_one (maxBatches options)"
      and "\<forall>k<n. \<not> reachMaxBatches options (Suc k)"
      and "reachMaxBatches options (Suc n)"
  shows "maxBatches options = Some (int (Suc n))"
proof -
  from assms(3) obtain m where m: "maxBatches options = Some m" "m \<le> int (Suc n)"
    by (auto simp: reachMaxBatches_def split: option.splits)
  from assms(1) m have "1 \<le> m" by (simp add: below_one_def)
  moreover have "int n < m" if "0 < n"
    using assms(2)[rule_format, of "n - 1"] that m by (simp add: reachMaxBatches_def)
  ultimately have "m = int (Suc n)" using m(2) by (cases "n = 0") auto
  with m show ?thesis by simp
qed

lemma totals_mono:
  assumes "\<forall>i<k. nonneg_counts (resp i)" "j \<le> k"
  shows "failedChangesCount (totals resp j) \<le> failedChangesCount (totals resp k)
       \<and> changedDirectoriesCount (totals resp j) \<le> changedDirectoriesCount (totals resp k)
       \<and> changedFilesCount (totals resp j) \<le> changedFilesCount (totals resp k)"
proof -
  have "(\<Sum>i<j. f (resp i)) \<le> (\<Sum>i<k. f (resp i))" if "\<forall>i<k. (0::int) \<le> f (resp i)"
    for f :: "acl_response \<Rightarrow> int"
    using that assms(2) by (intro sum_mono2) auto
  from this[of "\<lambda>r. or0 (failureCount r)"] this[of "\<lambda>r. or0 (directoriesSuccessful r)"]
       this[of "\<lambda>r. or0 (filesSuccessful r)"] assms(1)
  show ?thesis by (simp add: totals_def nonneg_counts_def)
qed

lemma totals_nonneg:
  assumes "\<forall>i<k. nonneg_counts (resp i)"
  shows "0 \<le> failedChangesCount (totals resp k) \<and> 0 \<le> changedDirectoriesCount (totals resp k)
       \<and> 0 \<le> changedFilesCount (totals resp k)"
  using totals_mono[OF assms, of 0] by (simp add: totals_def)

lemma sorted_map_upt:
  assumes "\<And>i j. i \<le> j \<Longrightarrow> j < m \<Longrightarrow> f i \<le> (f j :: int)"
  shows "sorted (map f [0..<m])"
  using assms by (simp add: sorted_iff_nth_mono)

lemma sorted_totals:
  assumes "\<forall>i<m. nonneg_counts (resp i)"
  shows "sorted (map (\<lambda>k. failedChangesCount (totals resp (Suc k))) [0..<m])
       \<and> sorted (map (\<lambda>k. changedDirectoriesCount (totals resp (Suc k))) [0..<m])
       \<and> sorted (map (\<lambda>k. changedFilesCount (totals resp (Suc k))) [0..<m])"
proof -
  have mono: "failedChangesCount (totals resp (Suc i)) \<le> failedChangesCount (totals resp (Suc j))
       \<and> changedDirectoriesCount (totals resp (Suc i)) \<le> changedDirectoriesCount (totals resp (Suc j))
       \<and> changedFilesCount (totals resp (Suc i)) \<le> changedFilesCount (totals resp (Suc j))"
    if "i \<le> j" "j < m" for i j
    using that assms by (intro totals_mono) auto
  show ?thesis
    by (intro conjI sorted_map_upt) (simp_all add: mono)
qed

lemma aggregates_batches:
  "map aggregateCounters (progress_calls (concat (map (batch_events mode acl options resp) ks))) =
     (if onProgress options = None then [] else map (\<lambda>k. totals resp (Suc k)) ks)"
  by (simp add: progress_calls_batches aggregate_progress del: acl_result_after.simps split: option.splits)

text \<open>
  Claim C1. Against any sequence \<open>resp\<close> of successful responses (and a progress
  callback that does not throw), the loop of \<open>setAccessControlRecursiveInternal\<close>
  goes on while the returned continuation token is non-empty and the batch counter is
  below \<open>maxBatches\<close>. If batch \<open>n\<close> is the first whose token is empty or absent, or
  with which the counter reaches \<open>maxBatches\<close>, then exactly \<open>n + 1\<close> remote calls are
  made, the result carries the token of that last response, and a non-empty token is
  returned only when \<open>maxBatches = n + 1\<close>. If no batch ever meets the stop condition,
  the operation does not return.
\<close>

theorem acl_loop_stops_on_empty_token_or_maxBatches:
  assumes "\<not> below_one (maxBatches options)" and "\<not> below_one (batchSize options)"
      and "quiet options"
  shows "((\<forall>k<n. truthy (continuation (resp k)) \<and> \<not> reachMaxBatches options (Suc k))
          \<and> (\<not> truthy (continuation (resp n)) \<or> reachMaxBatches options (Suc n))
          \<longrightarrow> (\<exists>res tr. setAccessControlRecursiveInternal mode acl options (\<lambda>k. Inr (resp k))
                             = Some (Inr res, tr)
                 \<and> length (remote_calls tr) = Suc n
                 \<and> continuationToken res = continuation (resp n)
                 \<and> (truthy (continuation (resp n)) \<longrightarrow> maxBatches options = Some (int (Suc n)))))
       \<and> ((\<forall>k. truthy (continuation (resp k)) \<and> \<not> reachMaxBatches options (Suc k))
          \<longrightarrow> setAccessControlRecursiveInternal mode acl options (\<lambda>k. Inr (resp k)) = None)"
proof (intro conjI impI)
  assume a: "(\<forall>k<n. truthy (continuation (resp k)) \<and> \<not> reachMaxBatches options (Suc k))
          \<and> (\<not> truthy (continuation (resp n)) \<or> reachMaxBatches options (Suc n))"
  then have c: "\<forall>k<n. continues options resp k" and s: "\<not> continues options resp n"
    by (auto simp: continues_def)
  have run: "setAccessControlRecursiveInternal mode acl options (\<lambda>k. Inr (resp k)) =
           Some (Inr (acl_result_after resp (Suc n)),
                 concat (map (batch_events mode acl options resp) [0..<Suc n]))"
    by (rule acl_returns[OF assms c s])
  have len: "length (remote_calls (concat (map (batch_events mode acl options resp) [0..<Suc n]))) = Suc n"
    by (simp only: remote_calls_batches length_map length_upt diff_zero)
  have ex: "truthy (continuation (resp n)) \<longrightarrow> maxBatches options = Some (int (Suc n))"
    using a reach_exact[OF assms(1), of n] by blast
  show "\<exists>res tr. setAccessControlRecursiveInternal mode acl options (\<lambda>k. Inr (resp k))
                             = Some (Inr res, tr)
                 \<and> length (remote_calls tr) = Suc n
                 \<and> continuationToken res = continuation (resp n)
                 \<and> (truthy (continuation (resp n)) \<longrightarrow> maxBatches options = Some (int (Suc n)))"
    using run len ex token_after[of resp n] by blast
next
  assume a: "\<forall>k. truthy (continuation (resp k)) \<and> \<not> reachMaxBatches options (Suc k)"
  show "setAccessControlRecursiveInternal mode acl options (\<lambda>k. Inr (resp k)) = None"
  proof (cases "setAccessControlRecursiveInternal mode acl options (\<lambda>k. Inr (resp k))")
    case None then show ?thesis .
  next
    case (Some y)
    then have "acl_loop mode acl options (\<lambda>k. Inr (resp k)) (opt_continuationToken options) 0
                 empty_result [] = Some y"
      using assms(1,2) by (simp add: setAccessControlRecursiveInternal_def)
    from acl_loop_diverges[OF this, of resp] assms(3) a show ?thesis
      by (simp add: continues_def)
  qed
qed

theorem acl_loop_stops_witness:
  "\<not> below_one (maxBatches (demo_options (Some 2) None False))
   \<and> \<not> below_one (batchSize (demo_options (Some 2) None False))
   \<and> quiet (demo_options (Some 2) None False)
   \<and> (\<exists>res tr. setAccessControlRecursiveInternal ModeSet ''user::rwx'' (demo_options (Some 2) None False)
          (\<lambda>k. Inr (demo_script k)) = Some (Inr res, tr)
        \<and> length (remote_calls tr) = 2 \<and> continuationToken res = Some '''')
   \<and> (\<exists>res tr. setAccessControlRecursiveInternal ModeSet ''user::rwx'' (demo_options None (Some 3) False)
          (\<lambda>k. Inr (demo_response ''A'')) = Some (Inr res, tr)
        \<and> length (remote_calls tr) = 3 \<and> continuationToken res = Some ''A'')"
proof -
  have h: "\<not> below_one (maxBatches (demo_options (Some 2) None False))"
     "\<not> below_one (batchSize (demo_options (Some 2) None False))"
     "quiet (demo_options (Some 2) None False)"
    by (simp_all add: below_one_def demo_options_def quiet_def)
  have h2: "\<not> below_one (maxBatches (demo_options None (Some 3) False))"
     "\<not> below_one (batchSize (demo_options None (Some 3) False))"
     "quiet (demo_options None (Some 3) False)"
    by (simp_all add: below_one_def demo_options_def quiet_def)
  have p1: "(\<forall>k<Suc 0. truthy (continuation (demo_script k))
               \<and> \<not> reachMaxBatches (demo_options (Some 2) None False) (Suc k))
          \<and> (\<not> truthy (continuation (demo_script (Suc 0)))
               \<or> reachMaxBatches (demo_options (Some 2) None False) (Suc (Suc 0)))"
    by (simp add: truthy_def demo_script_def demo_response_def reachMaxBatches_def demo_options_def)
  from acl_loop_stops_on_empty_token_or_maxBatches [OF h, of "Suc 0" demo_script ModeSet "''user::rwx''"] p1
  obtain res1 tr1 where
    r1: "setAccessControlRecursiveInternal ModeSet ''user::rwx'' (demo_options (Some 2) None False)
           (\<lambda>k. Inr (demo_script k)) = Some (Inr res1, tr1)"
    and l1: "length (remote_calls tr1) = Suc (Suc 0)"
    and c1: "continuationToken res1 = continuation (demo_script (Suc 0))"
    by blast
  have a: "\<exists>res tr. setAccessControlRecursiveInternal ModeSet ''user::rwx'' (demo_options (Some 2) None False)
          (\<lambda>k. Inr (demo_script k)) = Some (Inr res, tr)
        \<and> length (remote_calls tr) = 2 \<and> continuationToken res = Some ''''"
    using r1 l1 c1 by (simp add: demo_script_def demo_response_def)
  have p2: "(\<forall>k<Suc (Suc 0). truthy (continuation (demo_response ''A''))
               \<and> \<not> reachMaxBatches (demo_options None (Some 3) False) (Suc k))
          \<and> (\<not> truthy (continuation (demo_response ''A''))
               \<or> reachMaxBatches (demo_options None (Some 3) False) (Suc (Suc (Suc 0))))"
    by (simp add: truthy_def demo_response_def reachMaxBatches_def demo_options_def less_Suc_eq)
  from acl_loop_stops_on_empty_token_or_maxBatches
         [OF h2, of "Suc (Suc 0)" "\<lambda>k. demo_response ''A''" ModeSet "''user::rwx''"] p2
  obtain res2 tr2 where
    r2: "setAccessControlRecursiveInternal ModeSet ''user::rwx'' (demo_options None (Some 3) False)
           (\<lambda>k. Inr (demo_response ''A'')) = Some (Inr res2, tr2)"
    and l2: "length (remote_calls tr2) = Suc (Suc (Suc 0))"
    and c2: "continuationToken res2 = continuation (demo_response ''A'')"
    by blast
  have b: "\<exists>res tr. setAccessControlRecursiveInternal ModeSet ''user::rwx'' (demo_options None (Some 3) False)
          (\<lambda>k. Inr (demo_response ''A'')) = Some (Inr res, tr)
        \<and> length (remote_calls tr) = 3 \<and> continuationToken res = Some ''A''"
    using r2 l2 c2 by (simp add: demo_response_def)
  show ?thesis using h a b by blast
qed

text \<open>
  Claim C2. When the loop returns after \<open>n + 1\<close> successful batches, each counter of
  the result is the sum of that field over the batches in issue order, a missing field
  counting as 0, and the aggregate handed to the progress callback after batch \<open>k\<close> is
  the sum over the batches up to \<open>k\<close>. When no batch reports a negative count, the
  counters are non-negative and the aggregates never decrease from batch to batch.
\<close>

theorem acl_counters_are_batch_sums:
  assumes "\<not> below_one (maxBatches options)" and "\<not> below_one (batchSize options)"
      and "quiet options"
      and "\<forall>k<n. truthy (continuation (resp k)) \<and> \<not> reachMaxBatches options (Suc k)"
      and "\<not> truthy (continuation (resp n)) \<or> reachMaxBatches options (Suc n)"
  shows "\<exists>res tr. setAccessControlRecursiveInternal mode acl options (\<lambda>k. Inr (resp k))
                    = Some (Inr res, tr)
           \<and> failedChangesCount (counters res) = (\<Sum>k<Suc n. or0 (failureCount (resp k)))
           \<and> changedDirectoriesCount (counters res) = (\<Sum>k<Suc n. or0 (directoriesSuccessful (resp k)))
           \<and> changedFilesCount (counters res) = (\<Sum>k<Suc n. or0 (filesSuccessful (resp k)))
           \<and> map aggregateCounters (progress_calls tr) =
               (if onProgress options = None then [] else map (\<lambda>k. totals resp (Suc k)) [0..<Suc n])
           \<and> ((\<forall>k<Suc n. nonneg_counts (resp k)) \<longrightarrow>
                 0 \<le> failedChangesCount (counters res)
               \<and> 0 \<le> changedDirectoriesCount (counters res)
               \<and> 0 \<le> changedFilesCount (counters res)
               \<and> sorted (map (failedChangesCount \<circ> aggregateCounters) (progress_calls tr))
               \<and> sorted (map (changedDirectoriesCount \<circ> aggregateCounters) (progress_calls tr))
               \<and> sorted (map (changedFilesCount \<circ> aggregateCounters) (progress_calls tr)))"
proof -
  let ?tr = "concat (map (batch_events mode acl options resp) [0..<Suc n])"
  let ?res = "acl_result_after resp (Suc n)"
  have c: "\<forall>k<n. continues options resp k" and s: "\<not> continues options resp n"
    using assms(4,5) by (auto simp: continues_def)
  have run: "setAccessControlRecursiveInternal mode acl options (\<lambda>k. Inr (resp k)) = Some (Inr ?res, ?tr)"
    by (rule acl_returns[OF assms(1-3) c s])
  have sums: "failedChangesCount (counters ?res) = (\<Sum>k<Suc n. or0 (failureCount (resp k)))"
    "changedDirectoriesCount (counters ?res) = (\<Sum>k<Suc n. or0 (directoriesSuccessful (resp k)))"
    "changedFilesCount (counters ?res) = (\<Sum>k<Suc n. or0 (filesSuccessful (resp k)))"
    by (simp_all only: counters_totals totals_def Counters.simps)
  have agg: "map aggregateCounters (progress_calls ?tr) =
      (if onProgress options = None then [] else map (\<lambda>k. totals resp (Suc k)) [0..<Suc n])"
    by (rule aggregates_batches)
  have pos: "0 \<le> failedChangesCount (counters ?res) \<and> 0 \<le> changedDirectoriesCount (counters ?res)
       \<and> 0 \<le> changedFilesCount (counters ?res)"
    if "\<forall>k<Suc n. nonneg_counts (resp k)"
    using totals_nonneg[OF that] by (simp only: counters_totals)
  have srt: "sorted (map (failedChangesCount \<circ> aggregateCounters) (progress_calls ?tr))
       \<and> sorted (map (changedDirectoriesCount \<circ> aggregateCounters) (progress_calls ?tr))
       \<and> sorted (map (changedFilesCount \<circ> aggregateCounters) (progress_calls ?tr))"
    if "\<forall>k<Suc n. nonneg_counts (resp k)"
  proof -
    have m: "map (g \<circ> aggregateCounters) (progress_calls ?tr) =
       (if onProgress options = None then [] else map (\<lambda>k. g (totals resp (Suc k))) [0..<Suc n])"
      for g :: "Counters \<Rightarrow> int"
      using arg_cong[OF agg, of "map g"] by (simp add: comp_def)
    show ?thesis
    proof (cases "onProgress options = None")
      case True
      then show ?thesis by (simp only: m if_True) simp
    next
      case False
      then show ?thesis using sorted_totals[OF that] by (simp only: m if_False)
    qed
  qed
  show ?thesis
    using run sums agg pos srt by blast
qed
theorem acl_counters_witness:
  "\<not> below_one (maxBatches (demo_options None (Some 2) True))
   \<and> \<not> below_one (batchSize (demo_options None (Some 2) True))
   \<and> quiet (demo_options None (Some 2) True)
   \<and> nonneg_counts (demo_response ''A'')
   \<and> (\<exists>res tr. setAccessControlRecursiveInternal ModeModify ''user::rwx'' (demo_options None (Some 2) True)
          (\<lambda>k. Inr (demo_response ''A'')) = Some (Inr res, tr)
        \<and> failedChangesCount (counters res) = 2
        \<and> changedDirectoriesCount (counters res) = 0
        \<and> changedFilesCount (counters res) = 6
        \<and> map (failedChangesCount \<circ> aggregateCounters) (progress_calls tr) = [1, 2]
        \<and> sorted (map (changedFilesCount \<circ> aggregateCounters) (progress_calls tr)))"
proof -
  have h: "\<not> below_one (maxBatches (demo_options None (Some 2) True))"
     "\<not> below_one (batchSize (demo_options None (Some 2) True))"
     "quiet (demo_options None (Some 2) True)"
    by (simp_all add: below_one_def demo_options_def quiet_def)
  have n: "\<forall>k<Suc (Suc 0). nonneg_counts (demo_response ''A'')"
    by (simp add: nonneg_counts_def demo_response_def or0_def)
  have c: "\<forall>k<Suc 0. truthy (continuation (demo_response ''A''))
             \<and> \<not> reachMaxBatches (demo_options None (Some 2) True) (Suc k)"
    by (simp add: truthy_def demo_response_def reachMaxBatches_def demo_options_def)
  have s: "\<not> truthy (continuation (demo_response ''A''))
             \<or> reachMaxBatches (demo_options None (Some 2) True) (Suc (Suc 0))"
    by (simp add: reachMaxBatches_def demo_options_def)
  have t: "map (\<lambda>k. totals (\<lambda>k. demo_response ''A'') (Suc k)) [0..<Suc (Suc 0)] =
       [\<lparr>failedChangesCount = 1, changedDirectoriesCount = 0, changedFilesCount = 3\<rparr>,
        \<lparr>failedChangesCount = 2, changedDirectoriesCount = 0, changedFilesCount = 6\<rparr>]"
    by (simp add: totals_def demo_response_def or0_def)
  have cb: "onProgress (demo_options None (Some 2) True) \<noteq> None"
    by (simp add: demo_options_def)
  have ex: "\<exists>res tr. setAccessControlRecursiveInternal ModeModify ''user::rwx''
        (demo_options None (Some 2) True) (\<lambda>k. Inr (demo_response ''A'')) = Some (Inr res, tr)
     \<and> failedChangesCount (counters res) = (\<Sum>k<Suc (Suc 0). or0 (failureCount (demo_response ''A'')))
     \<and> changedDirectoriesCount (counters res) = (\<Sum>k<Suc (Suc 0). or0 (directoriesSuccessful (demo_response ''A'')))
     \<and> changedFilesCount (counters res) = (\<Sum>k<Suc (Suc 0). or0 (filesSuccessful (demo_response ''A'')))
     \<and> map aggregateCounters (progress_calls tr) =
               (if onProgress (demo_options None (Some 2) True) = None then []
                else map (\<lambda>k. totals (\<lambda>k. demo_response ''A'') (Suc k)) [0..<Suc (Suc 0)])
     \<and> ((\<forall>k<Suc (Suc 0). nonneg_counts (demo_response ''A'')) \<longrightarrow>
                 0 \<le> failedChangesCount (counters res)
               \<and> 0 \<le> changedDirectoriesCount (counters res)
               \<and> 0 \<le> changedFilesCount (counters res)
               \<and> sorted (map (failedChangesCount \<circ> aggregateCounters) (progress_calls tr))
               \<and> sorted (map (changedDirectoriesCount \<circ> aggregateCounters) (progress_calls tr))
               \<and> sorted (map (changedFilesCount \<circ> aggregateCounters) (progress_calls tr)))"
    by (rule acl_counters_are_batch_sums [OF h c s, of ModeModify "''user::rwx''"])
  then obtain res tr where r: "setAccessControlRecursiveInternal ModeModify ''user::rwx''
        (demo_options None (Some 2) True) (\<lambda>k. Inr (demo_response ''A'')) = Some (Inr res, tr)"
     and f: "failedChangesCount (counters res) = (\<Sum>k<Suc (Suc 0). or0 (failureCount (demo_response ''A'')))"
     and d: "changedDirectoriesCount (counters res) = (\<Sum>k<Suc (Suc 0). or0 (directoriesSuccessful (demo_response ''A'')))"
     and g: "changedFilesCount (counters res) = (\<Sum>k<Suc (Suc 0). or0 (filesSuccessful (demo_response ''A'')))"
     and p: "map aggregateCounters (progress_calls tr) =
               (if onProgress (demo_options None (Some 2) True) = None then []
                else map (\<lambda>k. totals (\<lambda>k. demo_response ''A'') (Suc k)) [0..<Suc (Suc 0)])"
     and m: "(\<forall>k<Suc (Suc 0). nonneg_counts (demo_response ''A'')) \<longrightarrow>
                 0 \<le> failedChangesCount (counters res)
               \<and> 0 \<le> changedDirectoriesCount (counters res)
               \<and> 0 \<le> changedFilesCount (counters res)
               \<and> sorted (map (failedChangesCount \<circ> aggregateCounters) (progress_calls tr))
               \<and> sorted (map (changedDirectoriesCount \<circ> aggregateCounters) (progress_calls tr))
               \<and> sorted (map (changedFilesCount \<circ> aggregateCounters) (progress_calls tr))"
    by (elim exE conjE)
  have f': "failedChangesCount (counters res) = 2"
    using f by (simp add: demo_response_def or0_def)
  have d': "changedDirectoriesCount (counters res) = 0"
    using d by (simp add: demo_response_def or0_def)
  have g': "changedFilesCount (counters res) = 6"
    using g by (simp add: demo_response_def or0_def)
  have ag: "map aggregateCounters (progress_calls tr) =
      [\<lparr>failedChangesCount = 1, changedDirectoriesCount = 0, changedFilesCount = 3\<rparr>,
       \<lparr>failedChangesCount = 2, changedDirectoriesCount = 0, changedFilesCount = 6\<rparr>]"
    using p cb by (simp only: t if_False)
  have a1: "map (failedChangesCount \<circ> aggregateCounters) (progress_calls tr) = [1, 2]"
    using arg_cong[OF ag, of "map failedChangesCount"] by simp
  have a2: "sorted (map (changedFilesCount \<circ> aggregateCounters) (progress_calls tr))"
    using m n by (elim impE conjE)
  have "setAccessControlRecursiveInternal ModeModify ''user::rwx'' (demo_options None (Some 2) True)
          (\<lambda>k. Inr (demo_response ''A'')) = Some (Inr res, tr)
        \<and> failedChangesCount (counters res) = 2
        \<and> changedDirectoriesCount (counters res) = 0
        \<and> changedFilesCount (counters res) = 6
        \<and> map (failedChangesCount \<circ> aggregateCounters) (progress_calls tr) = [1, 2]
        \<and> sorted (map (changedFilesCount \<circ> aggregateCounters) (progress_calls tr))"
    using r f' d' g' a1 a2 by (intro conjI)
  then have "\<exists>res tr. setAccessControlRecursiveInternal ModeModify ''user::rwx'' (demo_options None (Some 2) True)
          (\<lambda>k. Inr (demo_response ''A'')) = Some (Inr res, tr)
        \<and> failedChangesCount (counters res) = 2
        \<and> changedDirectoriesCount (counters res) = 0
        \<and> changedFilesCount (counters res) = 6
        \<and> map (failedChangesCount \<circ> aggregateCounters) (progress_calls tr) = [1, 2]
        \<and> sorted (map (changedFilesCount \<circ> aggregateCounters) (progress_calls tr))"
    by (intro exI)
  moreover have "nonneg_counts (demo_response ''A'')"
    by (simp add: nonneg_counts_def demo_response_def or0_def)
  ultimately show ?thesis using h by (intro conjI)
qed

text \<open>
  Claim C5, as the specification states it, fails: the \<open>RangeError\<close> is not thrown
  synchronously. The methods are \<open>async\<close>, so with \<open>batchSize = 0\<close> the call returns a
  promise, and the error is what that promise is rejected with.
\<close>

theorem acl_range_error_not_synchronous_counterexample:
  "setAccessControlRecursive_call ''user::rwx'' (demo_options (Some 0) None False) demo_acl_remote
     = ReturnsPromise (Some (Inl (RangeError ''Options batchSize must be larger than 0.'')))
   \<and> setAccessControlRecursive_call ''user::rwx'' (demo_options (Some 0) None False) demo_acl_remote
     \<noteq> ThrowsSynchronously (RangeError ''Options batchSize must be larger than 0.'')"
  by (simp add: setAccessControlRecursive_call_def async_function_def setAccessControlRecursive_def
        setAccessControlRecursiveInternal_def below_one_def demo_options_def)

text \<open>
  Claim C5, amended. When \<open>batchSize\<close> is supplied and below 1, or \<open>maxBatches\<close> is
  supplied and below 1, the operation fails with a \<open>RangeError\<close> before the loop is
  entered: no remote call is made, whatever the remote side would answer. The error is
  handed over as the rejection of the promise that the call returns, for the internal
  method and for each of the three public ones.
\<close>

theorem acl_rejects_below_one_by_rejected_promise:
  assumes "(\<exists>b. batchSize options = Some b \<and> b < 1) \<or> (\<exists>m. maxBatches options = Some m \<and> m < 1)"
  shows "\<exists>msg. setAccessControlRecursiveInternal mode acl options remote
                   = Some (Inl (RangeError msg), [])
           \<and> setAccessControlRecursiveInternal_call mode acl options remote
                   = ReturnsPromise (Some (Inl (RangeError msg)))
           \<and> setAccessControlRecursive_call acl options remote
                   = ReturnsPromise (Some (Inl (RangeError msg)))
           \<and> updateAccessControlRecursive_call acl options remote
                   = ReturnsPromise (Some (Inl (RangeError msg)))
           \<and> removeAccessControlRecursive_call acl options remote
                   = ReturnsPromise (Some (Inl (RangeError msg)))"
proof (cases "below_one (maxBatches options)")
  case True
  then show ?thesis
    by (simp add: setAccessControlRecursiveInternal_def setAccessControlRecursiveInternal_call_def
          setAccessControlRecursive_call_def updateAccessControlRecursive_call_def
          removeAccessControlRecursive_call_def setAccessControlRecursive_def
          updateAccessControlRecursive_def removeAccessControlRecursive_def async_function_def)
next
  case False
  with assms have "below_one (batchSize options)"
    by (auto simp: below_one_def)
  with False show ?thesis
    by (simp add: setAccessControlRecursiveInternal_def setAccessControlRecursiveInternal_call_def
          setAccessControlRecursive_call_def updateAccessControlRecursive_call_def
          removeAccessControlRecursive_call_def setAccessControlRecursive_def
          updateAccessControlRecursive_def removeAccessControlRecursive_def async_function_def)
qed

theorem acl_rejects_below_one_witness:
  "batchSize (demo_options (Some 0) None False) = Some 0 \<and> (0::int) < 1
   \<and> maxBatches (demo_options None (Some 0) True) = Some 0
   \<and> (\<exists>msg. setAccessControlRecursiveInternal ModeSet ''user::rwx'' (demo_options (Some 0) None False)
               demo_acl_remote = Some (Inl (RangeError msg), [])
          \<and> setAccessControlRecursive_call ''user::rwx'' (demo_options (Some 0) None False)
               demo_acl_remote = ReturnsPromise (Some (Inl (RangeError msg))))
   \<and> (\<exists>msg. setAccessControlRecursiveInternal ModeRemove ''user::rwx''
               (demo_options None (Some 0) True) demo_acl_remote = Some (Inl (RangeError msg), [])
          \<and> removeAccessControlRecursive_call ''user::rwx'' (demo_options None (Some 0) True)
               demo_acl_remote = ReturnsPromise (Some (Inl (RangeError msg))))"
proof -
  have b: "batchSize (demo_options (Some 0) None False) = Some 0"
    and m: "maxBatches (demo_options None (Some 0) True) = Some 0"
    by (simp_all add: demo_options_def)
  have hb: "(\<exists>b. batchSize (demo_options (Some 0) None False) = Some b \<and> b < 1)
          \<or> (\<exists>m. maxBatches (demo_options (Some 0) None False) = Some m \<and> m < 1)"
    using b by simp
  have hm: "(\<exists>b. batchSize (demo_options None (Some 0) True) = Some b \<and> b < 1)
          \<or> (\<exists>x. maxBatches (demo_options None (Some 0) True) = Some x \<and> x < 1)"
    using m by simp
  from acl_rejects_below_one_by_rejected_promise
         [OF hb, where mode = ModeSet and acl = "''user::rwx''" and remote = demo_acl_remote]
  have 1: "\<exists>msg. setAccessControlRecursiveInternal ModeSet ''user::rwx''
               (demo_options (Some 0) None False) demo_acl_remote = Some (Inl (RangeError msg), [])
          \<and> setAccessControlRecursive_call ''user::rwx'' (demo_options (Some 0) None False)
               demo_acl_remote = ReturnsPromise (Some (Inl (RangeError msg)))"
    by blast
  from acl_rejects_below_one_by_rejected_promise
         [OF hm, where mode = ModeRemove and acl = "''user::rwx''" and remote = demo_acl_remote]
  have 2: "\<exists>msg. setAccessControlRecursiveInternal ModeRemove ''user::rwx''
               (demo_options None (Some 0) True) demo_acl_remote = Some (Inl (RangeError msg), [])
          \<and> removeAccessControlRecursive_call ''user::rwx'' (demo_options None (Some 0) True)
               demo_acl_remote = ReturnsPromise (Some (Inl (RangeError msg)))"
    by blast
  from b m 1 2 show ?thesis by simp
qed

text \<open>
  Claim C6. If the batches before batch \<open>n\<close> succeed and the loop is still running, and
  the remote call of batch \<open>n\<close> fails with \<open>e\<close>, the operation ends with
  \<open>DataLakeAclChangeFailedError\<close> holding \<open>e\<close> and the token that the failed call was
  sent: the token returned by batch \<open>n - 1\<close>, or the caller's token when \<open>n = 0\<close>. The
  failed call is the last remote call (\<open>n + 1\<close> in all), and the aggregates reported to
  the progress callback for the \<open>n\<close> batches that succeeded stand as they were reported.
\<close>

theorem acl_failure_aborts_with_last_token:
  assumes "\<not> below_one (maxBatches options)" and "\<not> below_one (batchSize options)"
      and "quiet options"
      and "\<forall>k<n. remote k = Inr (resp k) \<and> truthy (continuation (resp k))
                   \<and> \<not> reachMaxBatches options (Suc k)"
      and "remote n = Inl e"
  shows "\<exists>tr. setAccessControlRecursiveInternal mode acl options remote =
            Some (Inl (DataLakeAclChangeFailedError e
                         (if n = 0 then opt_continuationToken options
                          else continuation (resp (n - 1)))), tr)
          \<and> length (remote_calls tr) = Suc n
          \<and> req_continuation (last (remote_calls tr)) =
               (if n = 0 then opt_continuationToken options else continuation (resp (n - 1)))
          \<and> map aggregateCounters (progress_calls tr) =
               (if onProgress options = None then [] else map (\<lambda>k. totals resp (Suc k)) [0..<n])"
proof -
  let ?tr = "concat (map (batch_events mode acl options resp) [0..<n])
               @ [RemoteCall (acl_request_of mode acl options (acl_token_before options resp n))]"
  have c: "\<forall>k. 0 \<le> k \<and> k < n \<longrightarrow> remote k = Inr (resp k) \<and> continues options resp k"
    using assms(4) by (simp add: continues_def)
  have "acl_loop mode acl options remote (acl_token_before options resp 0) 0
          (acl_result_after resp 0) [] =
        Some (Inl (DataLakeAclChangeFailedError e (acl_token_before options resp n)), [] @ ?tr)"
    by (rule acl_loop_fails[OF c assms(3) assms(5)]) simp
  then have run: "setAccessControlRecursiveInternal mode acl options remote =
        Some (Inl (DataLakeAclChangeFailedError e (acl_token_before options resp n)), ?tr)"
    by (simp only: acl_internal_loop[OF assms(1,2), of mode acl _ resp] append_Nil)
  have tok: "acl_token_before options resp n =
      (if n = 0 then opt_continuationToken options else continuation (resp (n - 1)))"
    by (cases n) simp_all
  have calls: "remote_calls ?tr =
      map (\<lambda>k. acl_request_of mode acl options (acl_token_before options resp k)) [0..<n]
        @ [acl_request_of mode acl options (acl_token_before options resp n)]"
    by (simp only: remote_calls_append remote_calls_batches remote_calls.simps)
  have len: "length (remote_calls ?tr) = Suc n"
    by (simp only: calls) simp
  have lst: "req_continuation (last (remote_calls ?tr)) = acl_token_before options resp n"
    by (simp only: calls last_snoc) (simp add: acl_request_of_def)
  have agg: "map aggregateCounters (progress_calls ?tr) =
      (if onProgress options = None then [] else map (\<lambda>k. totals resp (Suc k)) [0..<n])"
    by (simp only: progress_calls_append map_append aggregates_batches progress_calls.simps)
       simp
  show ?thesis
    using run len lst agg by (simp only: tok) blast
qed

theorem acl_failure_witness:
  "\<not> below_one (maxBatches (demo_options (Some 2) None True))
   \<and> \<not> below_one (batchSize (demo_options (Some 2) None True))
   \<and> quiet (demo_options (Some 2) None True)
   \<and> (\<exists>tr. setAccessControlRecursiveInternal ModeSet ''user::rwx'' (demo_options (Some 2) None True)
              (\<lambda>k. if k = 0 then Inr (demo_response ''A'') else Inl ''ServerBusy'')
            = Some (Inl (DataLakeAclChangeFailedError ''ServerBusy'' (Some ''A'')), tr)
         \<and> length (remote_calls tr) = 2
         \<and> map (changedFilesCount \<circ> aggregateCounters) (progress_calls tr) = [3])"
proof -
  have h: "\<not> below_one (maxBatches (demo_options (Some 2) None True))"
     "\<not> below_one (batchSize (demo_options (Some 2) None True))"
     "quiet (demo_options (Some 2) None True)"
    by (simp_all add: below_one_def demo_options_def quiet_def)
  let ?remote = "\<lambda>k::nat. if k = 0 then Inr (demo_response ''A'') else Inl ''ServerBusy''"
  have c: "\<forall>k<Suc 0. ?remote k = Inr (demo_response ''A'') \<and> truthy (continuation (demo_response ''A''))
             \<and> \<not> reachMaxBatches (demo_options (Some 2) None True) (Suc k)"
    by (simp add: truthy_def demo_response_def reachMaxBatches_def demo_options_def)
  have f: "?remote (Suc 0) = Inl ''ServerBusy''" by simp
  have cb: "onProgress (demo_options (Some 2) None True) \<noteq> None"
    by (simp add: demo_options_def)
  from acl_failure_aborts_with_last_token [OF h c f, of ModeSet "''user::rwx''"]
  obtain tr where r: "setAccessControlRecursiveInternal ModeSet ''user::rwx''
         (demo_options (Some 2) None True) ?remote =
            Some (Inl (DataLakeAclChangeFailedError ''ServerBusy''
                         (continuation (demo_response ''A''))), tr)"
     and l: "length (remote_calls tr) = Suc (Suc 0)"
     and p: "map aggregateCounters (progress_calls tr) =
               (if onProgress (demo_options (Some 2) None True) = None then []
                else map (\<lambda>k. totals (\<lambda>k. demo_response ''A'') (Suc k)) [0..<Suc 0])"
    by auto
  have ag: "map aggregateCounters (progress_calls tr) =
      [\<lparr>failedChangesCount = 1, changedDirectoriesCount = 0, changedFilesCount = 3\<rparr>]"
    using p cb by (simp add: totals_def demo_response_def or0_def)
  have a1: "map (changedFilesCount \<circ> aggregateCounters) (progress_calls tr) = [3]"
    using arg_cong[OF ag, of "map changedFilesCount"] by simp
  have r': "setAccessControlRecursiveInternal ModeSet ''user::rwx''
         (demo_options (Some 2) None True) ?remote =
            Some (Inl (DataLakeAclChangeFailedError ''ServerBusy'' (Some ''A'')), tr)"
    using r by (simp add: demo_response_def)
  from h r' l a1 show ?thesis by (simp add: numeral_2_eq_2)
qed

section \<open>Properties of the delete loop\<close>

lemma delete_request_at_eq:
  "\<lparr>del_continuation = del_continuation (delete_request_at recursive resp j),
    del_recursive = recursive\<rparr> = delete_request_at recursive resp j"
  by (cases j) simp_all

lemma delete_loop_step:
  assumes "remote j = Inr (resp j)"
  shows "delete_loop recursive remote (del_continuation (delete_request_at recursive resp j)) j trace =
     (if more_to_delete (resp j)
      then delete_loop recursive remote (del_continuation (delete_request_at recursive resp (Suc j)))
             (Suc j) (trace @ [delete_request_at recursive resp j])
      else Some (Inr (resp j), trace @ [delete_request_at recursive resp j]))"
  using assms
  by (subst delete_loop.simps) (auto simp: more_to_delete_def delete_request_at_eq)

lemma delete_loop_run:
  assumes "\<forall>k. j \<le> k \<and> k \<le> n \<longrightarrow> remote k = Inr (resp k)"
      and "\<forall>k. j \<le> k \<and> k < n \<longrightarrow> more_to_delete (resp k)"
      and "\<not> more_to_delete (resp n)"
      and "j \<le> n"
  shows "delete_loop recursive remote (del_continuation (delete_request_at recursive resp j)) j trace =
         Some (Inr (resp n), trace @ map (delete_request_at recursive resp) [j..<Suc n])"
  using assms
proof (induction "n - j" arbitrary: j trace)
  case 0
  then have "j = n" by simp
  with 0 show ?case
    by (simp add: delete_loop_step)
next
  case (Suc d)
  then have lt: "j < n" by simp
  have st: "remote j = Inr (resp j)" and co: "more_to_delete (resp j)"
    using Suc.prems lt by simp_all
  have ih: "delete_loop recursive remote (del_continuation (delete_request_at recursive resp (Suc j)))
              (Suc j) (trace @ [delete_request_at recursive resp j]) =
            Some (Inr (resp n), (trace @ [delete_request_at recursive resp j])
                    @ map (delete_request_at recursive resp) [Suc j..<Suc n])"
    using Suc.hyps(2) Suc.prems lt by (intro Suc.hyps(1)) auto
  have up: "[j..<Suc n] = j # [Suc j..<Suc n]" using lt by (simp add: upt_conv_Cons)
  have "delete_loop recursive remote (del_continuation (delete_request_at recursive resp j)) j trace =
        delete_loop recursive remote (del_continuation (delete_request_at recursive resp (Suc j)))
              (Suc j) (trace @ [delete_request_at recursive resp j])"
    using delete_loop_step[of remote j resp recursive trace] st co by simp
  then show ?case
    by (simp only: ih up list.map append_assoc append_Cons append_Nil)
qed

lemma delete_loop_diverges:
  assumes "delete_loop recursive remote tok j trace = Some y"
  shows "\<not> (\<forall>k\<ge>j. remote k = Inr (resp k) \<and> more_to_delete (resp k))"
  using assms
proof (induction arbitrary: resp rule: delete_loop.raw_induct[rotated 1, consumes 1, case_names step])
  case (step loop recursive remote tok j trace y)
  show ?case
  proof
    assume a: "\<forall>k\<ge>j. remote k = Inr (resp k) \<and> more_to_delete (resp k)"
    then have r: "remote j = Inr (resp j)" and c: "more_to_delete (resp j)" by auto
    from a have nxt: "\<forall>k\<ge>Suc j. remote k = Inr (resp k) \<and> more_to_delete (resp k)" by auto
    from step(2) r c obtain tok' trace' where "loop recursive remote tok' (Suc j) trace' = Some y"
      by (auto simp: more_to_delete_def)
    from step(1)[OF this, of resp] nxt show False by simp
  qed
qed

text \<open>
  Claim C10. \<open>DataLakePathClient.delete\<close> is a continuation loop. Against successful
  responses \<open>resp\<close>, with response \<open>n\<close> the first whose continuation is undefined or the
  empty string, it issues \<open>n + 1\<close> remote calls, the first without a continuation and
  each later one with the continuation of the response before it, and returns response
  \<open>n\<close>, the last one; one more response with a continuation means one more call. If
  every response carries a non-empty continuation, the operation does not return.
\<close>

theorem delete_follows_continuation_tokens:
  "((\<forall>k<n. more_to_delete (resp k)) \<and> \<not> more_to_delete (resp n)
      \<longrightarrow> DataLakePathClient_delete recursive (\<lambda>k. Inr (resp k)) =
            Some (Inr (resp n), map (delete_request_at recursive resp) [0..<Suc n]))
   \<and> ((\<forall>k. more_to_delete (resp k))
      \<longrightarrow> DataLakePathClient_delete recursive (\<lambda>k. Inr (resp k)) = None)"
proof (intro conjI impI)
  assume a: "(\<forall>k<n. more_to_delete (resp k)) \<and> \<not> more_to_delete (resp n)"
  have "delete_loop recursive (\<lambda>k. Inr (resp k))
          (del_continuation (delete_request_at recursive resp 0)) 0 [] =
        Some (Inr (resp n), [] @ map (delete_request_at recursive resp) [0..<Suc n])"
    using a by (intro delete_loop_run) simp_all
  then show "DataLakePathClient_delete recursive (\<lambda>k. Inr (resp k)) =
            Some (Inr (resp n), map (delete_request_at recursive resp) [0..<Suc n])"
    by (simp add: DataLakePathClient_delete_def)
next
  assume a: "\<forall>k. more_to_delete (resp k)"
  show "DataLakePathClient_delete recursive (\<lambda>k. Inr (resp k)) = None"
  proof (cases "DataLakePathClient_delete recursive (\<lambda>k. Inr (resp k))")
    case None then show ?thesis .
  next
    case (Some y)
    then have "delete_loop recursive (\<lambda>k. Inr (resp k)) None 0 [] = Some y"
      by (simp add: DataLakePathClient_delete_def)
    from delete_loop_diverges[OF this, of resp] a show ?thesis by simp
  qed
qed

theorem delete_follows_continuation_tokens_witness:
  "more_to_delete (demo_delete_script 0) \<and> more_to_delete (demo_delete_script 1)
   \<and> \<not> more_to_delete (demo_delete_script 2)
   \<and> DataLakePathClient_delete (Some True) (\<lambda>k. Inr (demo_delete_script k)) =
       Some (Inr (demo_delete_response None),
             [\<lparr>del_continuation = None, del_recursive = Some True\<rparr>,
              \<lparr>del_continuation = Some ''t1'', del_recursive = Some True\<rparr>,
              \<lparr>del_continuation = Some ''t2'', del_recursive = Some True\<rparr>])"
proof -
  have m: "more_to_delete (demo_delete_script 0)" "more_to_delete (demo_delete_script 1)"
      "\<not> more_to_delete (demo_delete_script 2)"
    by (simp_all add: more_to_delete_def demo_delete_script_def demo_delete_response_def)
  have p: "(\<forall>k<Suc (Suc 0). more_to_delete (demo_delete_script k))
            \<and> \<not> more_to_delete (demo_delete_script (Suc (Suc 0)))"
    by (simp add: more_to_delete_def demo_delete_script_def demo_delete_response_def less_Suc_eq)
  have e: "map (delete_request_at (Some True) demo_delete_script) [0..<Suc (Suc (Suc 0))] =
             [\<lparr>del_continuation = None, del_recursive = Some True\<rparr>,
              \<lparr>del_continuation = Some ''t1'', del_recursive = Some True\<rparr>,
              \<lparr>del_continuation = Some ''t2'', del_recursive = Some True\<rparr>]"
    by (simp add: demo_delete_script_def demo_delete_response_def)
  have s: "demo_delete_script (Suc (Suc 0)) = demo_delete_response None"
    by (simp add: demo_delete_script_def)
  from delete_follows_continuation_tokens [of "Suc (Suc 0)" demo_delete_script "Some True"] p
  have "DataLakePathClient_delete (Some True) (\<lambda>k. Inr (demo_delete_script k)) =
            Some (Inr (demo_delete_script (Suc (Suc 0))),
                  map (delete_request_at (Some True) demo_delete_script) [0..<Suc (Suc (Suc 0))])"
    by blast
  then have "DataLakePathClient_delete (Some True) (\<lambda>k. Inr (demo_delete_script k)) =
       Some (Inr (demo_delete_response None),
             [\<lparr>del_continuation = None, del_recursive = Some True\<rparr>,
              \<lparr>del_continuation = Some ''t1'', del_recursive = Some True\<rparr>,
              \<lparr>del_continuation = Some ''t2'', del_recursive = Some True\<rparr>])"
    by (simp only: e s)
  with m show ?thesis by (intro conjI)
qed

section \<open>Properties of the upload\<close>

declare batch_run.simps [simp del]

text \<open>
  Claim C8. For a payload of size 0 (and a size limit that is not negative), the upload
  issues the create call and nothing else, and settles with the outcome of that call:
  the create response when it succeeds.
\<close>

theorem empty_upload_only_creates:
  assumes "0 \<le> FILE_MAX_SIZE_BYTES L"
  shows "uploadSeekableInternal L remote sched 0 options =
           (Some (settled (createPath remote)), [CreateCall])"
  using assms by (simp add: uploadSeekableInternal_def)

theorem empty_upload_witness:
  "0 \<le> FILE_MAX_SIZE_BYTES demo_limits
   \<and> uploadSeekableInternal demo_limits demo_remote [] 0 (demo_upload_options None None None) =
       (Some (Inr ''created''), [CreateCall])"
proof -
  have h: "0 \<le> FILE_MAX_SIZE_BYTES demo_limits" by (simp add: demo_limits_def)
  have "settled (createPath demo_remote) = Inr ''created''"
    by (simp add: settled_def demo_remote_def)
  with empty_upload_only_creates [OF h, of demo_remote "[]" "demo_upload_options None None None"] h
  show ?thesis by simp
qed

text \<open>
  Claim C7. For a payload with \<open>0 < size \<le> singleUploadThreshold\<close> (as resolved), when the
  options pass the checks and the create and append calls succeed, the upload is the
  create call, one append call at position 0 of length \<open>size\<close>, and one flush call at
  position \<open>size\<close>, whose outcome it settles with. The worker pool has no part in it:
  the events do not depend on the schedule or on \<open>maxConcurrency\<close>.
\<close>

theorem single_shot_upload:
  assumes "0 < sz" and "sz \<le> resolved_singleUploadThreshold L options"
      and "sz \<le> FILE_MAX_SIZE_BYTES L"
      and "upload_options_valid L sz options"
      and "createPath remote = Inr created"
      and "appendData remote 0 sz = None"
  shows "uploadSeekableInternal L remote sched sz options =
           (Some (settled (flushData remote sz)),
            [CreateCall, AppendCall 0 sz, AppendDone 0 sz, FlushCall sz])"
  using assms by (simp add: uploadSeekableInternal_def upload_options_valid_def)

theorem single_shot_upload_witness:
  "(0::int) < 1000 \<and> 1000 \<le> resolved_singleUploadThreshold demo_limits (demo_upload_options None None None)
   \<and> 1000 \<le> FILE_MAX_SIZE_BYTES demo_limits
   \<and> upload_options_valid demo_limits 1000 (demo_upload_options None None None)
   \<and> createPath demo_remote = Inr ''created''
   \<and> appendData demo_remote 0 1000 = None
   \<and> uploadSeekableInternal demo_limits demo_remote [1, 0] 1000 (demo_upload_options None None None) =
        (Some (Inr ''flushed''), [CreateCall, AppendCall 0 1000, AppendDone 0 1000, FlushCall 1000])"
proof -
  have a: "(0::int) < 1000" by simp
  have b: "1000 \<le> resolved_singleUploadThreshold demo_limits (demo_upload_options None None None)"
    by (simp add: resolved_singleUploadThreshold_def demo_upload_options_def unset_def demo_limits_def)
  have c: "1000 \<le> FILE_MAX_SIZE_BYTES demo_limits" by (simp add: demo_limits_def)
  have d: "upload_options_valid demo_limits 1000 (demo_upload_options None None None)"
    by (simp add: upload_options_valid_def resolved_chunkSize_def resolved_maxConcurrency_def
          resolved_singleUploadThreshold_def demo_upload_options_def unset_def demo_limits_def)
  have e: "createPath demo_remote = Inr ''created''" by (simp add: demo_remote_def)
  have f: "appendData demo_remote 0 1000 = None" by (simp add: demo_remote_def)
  have g: "settled (flushData demo_remote 1000) = Inr ''flushed''"
    by (simp add: settled_def demo_remote_def)
  from single_shot_upload [OF a b c d e f, of "[1, 0]"] g
  have "uploadSeekableInternal demo_limits demo_remote [1, 0] 1000 (demo_upload_options None None None) =
        (Some (Inr ''flushed''), [CreateCall, AppendCall 0 1000, AppendDone 0 1000, FlushCall 1000])"
    by simp
  with a b c d e f show ?thesis by (intro conjI)
qed

text \<open>
  Claim C4, as the specification states it, fails: only the size check precedes the
  create call. With a chunk size of \<open>-1\<close> the create call has been issued by the time the
  \<open>RangeError\<close> is raised.
\<close>

theorem validation_after_create_counterexample:
  "resolved_chunkSize demo_limits 10 (demo_upload_options (Some (- 1)) None None) = - 1
   \<and> uploadSeekableInternal demo_limits demo_remote [] 10 (demo_upload_options (Some (- 1)) None None) =
       (Some (Inl (RangeError ''chunkSize option must be >= 1 and <= FILE_UPLOAD_MAX_CHUNK_SIZE'')),
        [CreateCall])"
  by (simp add: uploadSeekableInternal_def resolved_chunkSize_def demo_upload_options_def
        unset_def or0_def demo_limits_def demo_remote_def)

text \<open>
  Claim C4, amended. A size above the limit is rejected with a \<open>RangeError\<close> before any
  remote call. For a size that is within the limit and not 0, the other checks run after
  the create call has succeeded and before any append or flush call: the upload ends with
  a \<open>RangeError\<close>, the create call being its only remote call, when the resolved chunk
  size is outside \<open>[1, FILE_UPLOAD_MAX_CHUNK_SIZE]\<close>, when the resolved concurrency is not
  positive, or when the size is above the resolved single-upload threshold and the number
  of chunks is above \<open>BLOCK_BLOB_MAX_BLOCKS\<close>. An unset chunk size resolves to the larger of
  the default chunk size and \<open>ceil(size / BLOCK_BLOB_MAX_BLOCKS)\<close>.
\<close>

theorem upload_validation:
  "(FILE_MAX_SIZE_BYTES L < sz \<longrightarrow>
      (\<exists>msg. uploadSeekableInternal L remote sched sz options = (Some (Inl (RangeError msg)), [])))
   \<and> (sz \<le> FILE_MAX_SIZE_BYTES L \<and> sz \<noteq> 0 \<and> createPath remote = Inr created
        \<and> (resolved_chunkSize L sz options < 1
             \<or> FILE_UPLOAD_MAX_CHUNK_SIZE L < resolved_chunkSize L sz options
             \<or> resolved_maxConcurrency L options \<le> 0
             \<or> (resolved_singleUploadThreshold L options < sz
                  \<and> BLOCK_BLOB_MAX_BLOCKS L < numBlocks sz (resolved_chunkSize L sz options)))
      \<longrightarrow> (\<exists>msg. uploadSeekableInternal L remote sched sz options =
                     (Some (Inl (RangeError msg)), [CreateCall])))
   \<and> (unset (chunkSize options) \<longrightarrow>
        resolved_chunkSize L sz options =
          max (FILE_UPLOAD_DEFAULT_CHUNK_SIZE L)
              \<lceil>real_of_int sz / real_of_int (BLOCK_BLOB_MAX_BLOCKS L)\<rceil>)"
proof (intro conjI impI)
  assume "FILE_MAX_SIZE_BYTES L < sz"
  then show "\<exists>msg. uploadSeekableInternal L remote sched sz options = (Some (Inl (RangeError msg)), [])"
    by (simp add: uploadSeekableInternal_def)
next
  assume a: "sz \<le> FILE_MAX_SIZE_BYTES L \<and> sz \<noteq> 0 \<and> createPath remote = Inr created
        \<and> (resolved_chunkSize L sz options < 1
             \<or> FILE_UPLOAD_MAX_CHUNK_SIZE L < resolved_chunkSize L sz options
             \<or> resolved_maxConcurrency L options \<le> 0
             \<or> (resolved_singleUploadThreshold L options < sz
                  \<and> BLOCK_BLOB_MAX_BLOCKS L < numBlocks sz (resolved_chunkSize L sz options)))"
  then show "\<exists>msg. uploadSeekableInternal L remote sched sz options =
                     (Some (Inl (RangeError msg)), [CreateCall])"
    by (auto simp add: uploadSeekableInternal_def)
next
  assume "unset (chunkSize options)"
  then show "resolved_chunkSize L sz options =
          max (FILE_UPLOAD_DEFAULT_CHUNK_SIZE L)
              \<lceil>real_of_int sz / real_of_int (BLOCK_BLOB_MAX_BLOCKS L)\<rceil>"
    by (simp add: resolved_chunkSize_def max_def)
qed

theorem upload_validation_witness:
  "(\<exists>msg. uploadSeekableInternal demo_limits demo_remote [] 5242880000001
             (demo_upload_options None None None) = (Some (Inl (RangeError msg)), []))
   \<and> (\<exists>msg. uploadSeekableInternal demo_limits demo_remote [] 200000000
             (demo_upload_options (Some 1000) None None) = (Some (Inl (RangeError msg)), [CreateCall]))
   \<and> resolved_chunkSize demo_limits 500000000000 (demo_upload_options None None None) = 10000000"
proof -
  have a: "FILE_MAX_SIZE_BYTES demo_limits < 5242880000001" by (simp add: demo_limits_def)
  have nb: "numBlocks 200000000 1000 = 200000"
    by (simp add: numBlocks_def floor_divide_of_int_eq[of "199999999" "1000", simplified])
  have b: "200000000 \<le> FILE_MAX_SIZE_BYTES demo_limits \<and> (200000000::int) \<noteq> 0
        \<and> createPath demo_remote = Inr ''created''
        \<and> (resolved_chunkSize demo_limits 200000000 (demo_upload_options (Some 1000) None None) < 1
             \<or> FILE_UPLOAD_MAX_CHUNK_SIZE demo_limits
                  < resolved_chunkSize demo_limits 200000000 (demo_upload_options (Some 1000) None None)
             \<or> resolved_maxConcurrency demo_limits (demo_upload_options (Some 1000) None None) \<le> 0
             \<or> (resolved_singleUploadThreshold demo_limits (demo_upload_options (Some 1000) None None)
                    < 200000000
                  \<and> BLOCK_BLOB_MAX_BLOCKS demo_limits
                      < numBlocks 200000000
                          (resolved_chunkSize demo_limits 200000000
                             (demo_upload_options (Some 1000) None None))))"
    by (simp add: resolved_chunkSize_def resolved_singleUploadThreshold_def demo_upload_options_def
          unset_def or0_def demo_limits_def demo_remote_def nb)
  have c: "unset (chunkSize (demo_upload_options None None None))"
    by (simp add: unset_def demo_upload_options_def)
  have m: "max (FILE_UPLOAD_DEFAULT_CHUNK_SIZE demo_limits)
              \<lceil>real_of_int 500000000000 / real_of_int (BLOCK_BLOB_MAX_BLOCKS demo_limits)\<rceil> = 10000000"
    by (simp add: demo_limits_def)
  from upload_validation [where L = demo_limits and sz = 5242880000001 and remote = demo_remote
      and sched = "[]" and options = "demo_upload_options None None None"] a
  have 1: "\<exists>msg. uploadSeekableInternal demo_limits demo_remote [] 5242880000001
             (demo_upload_options None None None) = (Some (Inl (RangeError msg)), [])"
    by blast
  from upload_validation [where L = demo_limits and sz = 200000000 and remote = demo_remote
      and created = "''created''" and sched = "[]"
      and options = "demo_upload_options (Some 1000) None None"] b
  have 2: "\<exists>msg. uploadSeekableInternal demo_limits demo_remote [] 200000000
             (demo_upload_options (Some 1000) None None) = (Some (Inl (RangeError msg)), [CreateCall])"
    by blast
  from upload_validation [where L = demo_limits and sz = 500000000000 and remote = demo_remote
      and sched = "[]" and options = "demo_upload_options None None None"] c m
  have 3: "resolved_chunkSize demo_limits 500000000000 (demo_upload_options None None None) = 10000000"
    by simp
  from 1 2 3 show ?thesis by (intro conjI)
qed

lemma numBlocks_div: "numBlocks sz c = (sz - 1) div c + 1"
  by (simp only: numBlocks_def floor_divide_of_int_eq)

lemma numBlocks_ceiling:
  assumes "1 \<le> c"
  shows "numBlocks sz c = \<lceil>real_of_int sz / real_of_int c\<rceil>"
proof -
  let ?q = "(sz - 1) div c" and ?r = "(sz - 1) mod c"
  have dm: "c * ?q + ?r = sz - 1" by (rule mult_div_mod_eq)
  have r: "0 \<le> ?r" "?r < c" using assms by simp_all
  have "- sz = c * (- ?q - 1) + (c - ?r - 1)"
    using dm by (simp add: algebra_simps)
  then have "(- sz) div c = - ?q - 1"
    using r by (intro int_div_pos_eq[where r = "c - ?r - 1"]) simp_all
  then have "(sz - 1) div c + 1 = - ((- sz) div c)" by simp
  then show ?thesis
    by (simp only: numBlocks_div ceiling_divide_eq_div)
qed

lemma choice_less: "0 < n \<Longrightarrow> choice sched n < n"
  by (simp add: choice_def split: list.splits)

lemma started_unstarted: "started N pending actives @ unstarted N pending actives = pending"
  by (simp add: started_def unstarted_def)

lemma mset_remove_nth:
  assumes "i < length xs"
  shows "add_mset (xs ! i) (mset (remove_nth i xs)) = mset xs"
proof -
  have "mset xs = mset (take i xs @ xs ! i # drop (Suc i) xs)"
    using id_take_nth_drop[OF assms] by simp
  then show ?thesis by (simp add: remove_nth_def)
qed

lemma length_remove_nth: "i < length xs \<Longrightarrow> length (remove_nth i xs) = length xs - 1"
  by (auto simp: remove_nth_def)

lemma filter_remote_call_issue: "filter remote_call (map issue ops) = map issue ops"
  by (induction ops) (simp_all add: issue_def)

lemma appends_done_issue: "appends_done (map issue ops) = []"
  by (induction ops) (simp_all add: issue_def)

lemma appends_done_append: "appends_done (xs @ ys) = appends_done xs @ appends_done ys"
  by (induction xs rule: appends_done.induct) simp_all

lemma in_flight_append: "in_flight (xs @ ys) = in_flight xs + in_flight ys"
  by (induction xs) simp_all

lemma stays_within_append:
  "stays_within N c (xs @ ys) = (stays_within N c xs \<and> stays_within N (c + in_flight xs) ys)"
proof (induction xs arbitrary: c)
  case Nil
  show ?case by (cases ys) auto
next
  case (Cons e es)
  show ?case by (simp add: Cons.IH add.assoc)
qed

lemma stays_within_take:
  "stays_within N c es \<Longrightarrow> c + in_flight (take k es) \<le> N"
proof (induction es arbitrary: c k)
  case Nil
  then show ?case by simp
next
  case (Cons e es)
  show ?case
  proof (cases k)
    case 0
    with Cons.prems show ?thesis by simp
  next
    case (Suc j)
    from Cons.prems have "stays_within N (c + delta e) es" by simp
    from Cons.IH[OF this, of j] Suc show ?thesis by simp
  qed
qed

lemma in_flight_issue: "in_flight (map issue ops) = int (length ops)"
  by (induction ops) (simp_all add: issue_def)

lemma stays_within_issue:
  "c + int (length ops) \<le> N \<Longrightarrow> stays_within N c (map issue ops)"
  by (induction ops arbitrary: c) (simp_all add: issue_def)

lemma batch_run_idle:
  assumes "actives @ started N pending actives = []"
  shows "batch_run N settle sched pending actives tp =
           (if pending = [] then Resolved else Stalled, [])"
  by (subst batch_run.simps) (simp only: assms simp_thms if_True)

lemma batch_run_rejected:
  assumes "actives @ started N pending actives \<noteq> []"
      and "settle ((actives @ started N pending actives)
                     ! choice sched (length (actives @ started N pending actives))) tp
             = (Some e, tp', events)"
  shows "batch_run N settle sched pending actives tp =
           (Rejected e, map issue (started N pending actives) @ events)"
  by (subst batch_run.simps) (simp only: assms simp_thms if_False prod.case option.case)

lemma batch_run_continues:
  assumes "actives @ started N pending actives \<noteq> []"
      and "settle ((actives @ started N pending actives)
                     ! choice sched (length (actives @ started N pending actives))) tp
             = (None, tp', events)"
      and "batch_run N settle (tl sched) (unstarted N pending actives)
             (remove_nth (choice sched (length (actives @ started N pending actives)))
                (actives @ started N pending actives)) tp' = (result, rest)"
  shows "batch_run N settle sched pending actives tp =
           (result, map issue (started N pending actives) @ events @ rest)"
  by (subst batch_run.simps) (simp only: assms simp_thms if_False prod.case option.case)

text \<open>Every operation of the pool succeeds: all queued operations are started, in queue order.\<close>

lemma batch_run_all_succeed:
  assumes "0 < N"
      and "\<And>operation tp. \<exists>tp' events. settle operation tp = (None, tp', events)
              \<and> filter remote_call events = [] \<and> appends_done events = [operation]"
  shows "\<exists>tr. batch_run N settle sched pending actives tp = (Resolved, tr)
           \<and> filter remote_call tr = map issue pending
           \<and> mset (appends_done tr) = mset (actives @ pending)"
  using assms
proof (induction N settle sched pending actives tp rule: batch_run.induct)
  case (1 N settle sched pending actives tp)
  let ?st = "started N pending actives"
  let ?running = "actives @ ?st"
  let ?i = "choice sched (length ?running)"
  show ?case
  proof (cases "?running = []")
    case True
    then have a: "actives = []" and s: "?st = []" by auto
    from s a \<open>0 < N\<close> have p: "pending = []" by (simp add: started_def)
    have "batch_run N settle sched pending actives tp =
            (if pending = [] then Resolved else Stalled, [])"
      by (rule batch_run_idle[OF True])
    with a p show ?thesis by simp
  next
    case False
    from 1(3)[of "?running ! ?i" tp] obtain tp' events where
      se: "settle (?running ! ?i) tp = (None, tp', events)"
      and fe: "filter remote_call events = []" and de: "appends_done events = [?running ! ?i]"
      by blast
    have "\<exists>tr. batch_run N settle (tl sched) (unstarted N pending actives)
                  (remove_nth ?i ?running) tp' = (Resolved, tr)
           \<and> filter remote_call tr = map issue (unstarted N pending actives)
           \<and> mset (appends_done tr) = mset (remove_nth ?i ?running @ unstarted N pending actives)"
      using False se 1(2,3) by (intro 1(1)[where x = None and y = "(tp', events)" and xa = tp' and ya = events]) auto
    then obtain rest where
      br: "batch_run N settle (tl sched) (unstarted N pending actives)
                  (remove_nth ?i ?running) tp' = (Resolved, rest)"
      and fr: "filter remote_call rest = map issue (unstarted N pending actives)"
      and dr: "mset (appends_done rest) = mset (remove_nth ?i ?running @ unstarted N pending actives)"
      by blast
    have run: "batch_run N settle sched pending actives tp =
                 (Resolved, map issue ?st @ events @ rest)"
      by (rule batch_run_continues[OF False se br])
    have il: "?i < length ?running" using False by (intro choice_less) simp
    have f: "filter remote_call (map issue ?st @ events @ rest) = map issue pending"
      using fe fr started_unstarted[of N pending actives]
      by (simp add: filter_remote_call_issue flip: map_append)
    have "mset (appends_done (map issue ?st @ events @ rest)) =
            add_mset (?running ! ?i) (mset (remove_nth ?i ?running))
              + mset (unstarted N pending actives)"
      using de dr by (simp add: appends_done_append appends_done_issue)
    also have "\<dots> = mset ?running + mset (unstarted N pending actives)"
      by (simp only: mset_remove_nth[OF il])
    also have "\<dots> = mset (actives @ pending)"
      using arg_cong[OF started_unstarted[of N pending actives], of mset] by simp
    finally show ?thesis using run f by blast
  qed
qed

text \<open>Whatever the operations do, the pool keeps at most \<open>N\<close> of them in flight.\<close>

lemma batch_run_stays_within:
  assumes "0 < N" and "int (length actives) \<le> N"
      and "\<And>operation tp c. c \<le> N \<Longrightarrow>
              stays_within N c (snd (snd (settle operation tp)))
              \<and> in_flight (snd (snd (settle operation tp))) = - 1"
  shows "stays_within N (int (length actives))
           (snd (batch_run N settle sched pending actives tp))"
  using assms
proof (induction N settle sched pending actives tp rule: batch_run.induct)
  case (1 N settle sched pending actives tp)
  let ?st = "started N pending actives"
  let ?running = "actives @ ?st"
  let ?i = "choice sched (length ?running)"
  have ls: "int (length actives) + int (length ?st) \<le> N"
    using 1(3) by (simp add: started_def)
  show ?case
  proof (cases "?running = []")
    case True
    have "batch_run N settle sched pending actives tp =
            (if pending = [] then Resolved else Stalled, [])"
      by (rule batch_run_idle[OF True])
    with 1(3) show ?thesis by simp
  next
    case False
    obtain r tp' events where se: "settle (?running ! ?i) tp = (r, tp', events)"
      by (cases "settle (?running ! ?i) tp") auto
    have ev: "stays_within N (int (length actives) + int (length ?st)) events"
      and ie: "in_flight events = - 1"
      using 1(4)[OF ls, of "?running ! ?i" tp] se by simp_all
    have pre: "stays_within N (int (length actives)) (map issue ?st)"
      using ls by (intro stays_within_issue)
    have il: "?i < length ?running" using False by (intro choice_less) simp
    show ?thesis
    proof (cases r)
      case (Some e)
      then have "batch_run N settle sched pending actives tp = (Rejected e, map issue ?st @ events)"
        using batch_run_rejected[OF False, of settle sched tp e tp' events] se by simp
      then show ?thesis
        using pre ev by (simp add: stays_within_append in_flight_issue)
    next
      case None
      have lr: "int (length (remove_nth ?i ?running)) = int (length actives) + int (length ?st) - 1"
        using il by (simp add: length_remove_nth)
      then have le: "int (length (remove_nth ?i ?running)) \<le> N" using ls by simp
      have ih: "stays_within N (int (length (remove_nth ?i ?running)))
                 (snd (batch_run N settle (tl sched) (unstarted N pending actives)
                         (remove_nth ?i ?running) tp'))"
        using False se None 1(2) le 1(4)
        by (intro 1(1)[where x = None and y = "(tp', events)" and xa = tp' and ya = events]) auto
      obtain res rest where br: "batch_run N settle (tl sched) (unstarted N pending actives)
                         (remove_nth ?i ?running) tp' = (res, rest)"
        by (cases "batch_run N settle (tl sched) (unstarted N pending actives)
                         (remove_nth ?i ?running) tp'") auto
      have "batch_run N settle sched pending actives tp = (res, map issue ?st @ events @ rest)"
        using batch_run_continues[OF False _ br, of tp events] se None by simp
      then show ?thesis
        using pre ev ie ih br lr
        by (simp add: stays_within_append in_flight_issue)
    qed
  qed
qed

lemma operations_expected:
  assumes "1 \<le> c"
  shows "operations sz c (numBlocks sz c) = expected_chunks sz c"
proof -
  let ?n = "\<lceil>real_of_int sz / real_of_int c\<rceil>"
  have "chunk_operation sz c ?n (int i) =
          (c * int i, if Suc i = nat ?n then sz - c * (?n - 1) else c)"
    if "i < nat ?n" for i
  proof -
    have "(int i = ?n - 1) = (Suc i = nat ?n)" using that by linarith
    then show ?thesis by (auto simp: chunk_operation_def)
  qed
  then show ?thesis
    by (simp add: operations_def expected_chunks_def numBlocks_ceiling[OF assms])
qed

lemma ceiling_blocks_pos:
  assumes "1 \<le> c" "0 < sz"
  shows "1 \<le> \<lceil>real_of_int sz / real_of_int c\<rceil>"
proof -
  have "0 \<le> (sz - 1) div c" using assms by (simp add: pos_imp_zdiv_nonneg_iff)
  moreover have "numBlocks sz c = \<lceil>real_of_int sz / real_of_int c\<rceil>"
    by (rule numBlocks_ceiling[OF assms(1)])
  moreover have "numBlocks sz c = (sz - 1) div c + 1"
    by (rule numBlocks_div)
  ultimately show ?thesis by linarith
qed

lemma nth_expected_chunks:
  assumes "i < nat \<lceil>real_of_int sz / real_of_int c\<rceil>"
  shows "expected_chunks sz c ! i =
           (c * int i,
            if Suc i = nat \<lceil>real_of_int sz / real_of_int c\<rceil>
            then sz - c * (\<lceil>real_of_int sz / real_of_int c\<rceil> - 1) else c)"
  using assms by (simp add: expected_chunks_def)

lemma length_expected_chunks:
  "length (expected_chunks sz c) = nat \<lceil>real_of_int sz / real_of_int c\<rceil>"
  by (simp add: expected_chunks_def)

lemma expected_chunks_prefix_sum:
  assumes "i < nat \<lceil>real_of_int sz / real_of_int c\<rceil>"
  shows "sum_list (map snd (take i (expected_chunks sz c))) = c * int i"
  using assms
proof (induction i)
  case 0
  show ?case by simp
next
  case (Suc i)
  let ?n = "nat \<lceil>real_of_int sz / real_of_int c\<rceil>"
  have lt: "i < length (expected_chunks sz c)" using Suc.prems by (simp add: length_expected_chunks)
  have nth: "snd (expected_chunks sz c ! i) = c"
    using nth_expected_chunks[of i sz c] Suc.prems by simp
  have "take (Suc i) (expected_chunks sz c) = take i (expected_chunks sz c) @ [expected_chunks sz c ! i]"
    by (rule take_Suc_conv_app_nth[OF lt])
  then show ?case
    using Suc.IH Suc.prems nth by (simp add: algebra_simps)
qed

lemma expected_chunks_contiguous:
  assumes "i < length (expected_chunks sz c)"
  shows "fst (expected_chunks sz c ! i) = sum_list (map snd (take i (expected_chunks sz c)))"
proof -
  have i: "i < nat \<lceil>real_of_int sz / real_of_int c\<rceil>"
    using assms by (simp add: length_expected_chunks)
  then have "fst (expected_chunks sz c ! i) = c * int i"
    by (simp add: nth_expected_chunks)
  then show ?thesis by (simp only: expected_chunks_prefix_sum[OF i])
qed

lemma expected_chunks_total:
  assumes "1 \<le> c" "0 < sz"
  shows "sum_list (map snd (expected_chunks sz c)) = sz"
proof -
  let ?m = "\<lceil>real_of_int sz / real_of_int c\<rceil>"
  let ?n = "nat ?m"
  have pos: "1 \<le> ?m" by (rule ceiling_blocks_pos[OF assms])
  then obtain k where k: "?n = Suc k" by (cases ?n) auto
  have len: "k < length (expected_chunks sz c)" using k by (simp add: length_expected_chunks)
  have lst: "snd (expected_chunks sz c ! k) = sz - c * (?m - 1)"
    using nth_expected_chunks[of k sz c] k by simp
  have "expected_chunks sz c = take (Suc k) (expected_chunks sz c)"
    using k by (simp add: length_expected_chunks)
  also have "\<dots> = take k (expected_chunks sz c) @ [expected_chunks sz c ! k]"
    by (rule take_Suc_conv_app_nth[OF len])
  finally have "sum_list (map snd (expected_chunks sz c)) =
      sum_list (map snd (take k (expected_chunks sz c))) + snd (expected_chunks sz c ! k)"
    by (metis (no_types) map_append sum_list_append list.map sum_list.Cons sum_list.Nil add_0_right)
  also have "\<dots> = c * int k + (sz - c * (?m - 1))"
    using expected_chunks_prefix_sum[of k sz c] k lst by simp
  also have "\<dots> = sz"
  proof -
    have "int k = ?m - 1" using k pos by linarith
    then show ?thesis by simp
  qed
  finally show ?thesis .
qed

lemma settle_operation_succeeds:
  assumes "\<forall>position len. appendData remote position len = None" and "quiet_upload options"
  shows "\<exists>tp' events. settle_operation remote (upload_onProgress options) operation tp
                          = (None, tp', events)
           \<and> filter remote_call events = [] \<and> appends_done events = [operation]"
  using assms by (auto simp: settle_operation_def quiet_upload_def split: option.splits)

lemma settle_operation_stays_within:
  assumes "c \<le> N"
  shows "stays_within N c (snd (snd (settle_operation remote callback operation tp)))
         \<and> in_flight (snd (snd (settle_operation remote callback operation tp))) = - 1"
  using assms by (auto simp: settle_operation_def split: option.splits)

lemma demo_expected_chunks:
  "expected_chunks 10000000 4000000 = [(0, 4000000), (4000000, 4000000), (8000000, 2000000)]"
proof -
  have c: "\<lceil>real_of_int 10000000 / real_of_int 4000000\<rceil> = (3::int)"
    by (simp add: ceiling_divide_eq_div)
  have u: "[0..<nat 3] = [0, 1, 2]"
    by (simp add: upt_rec numeral_3_eq_3)
  show ?thesis
    by (simp only: expected_chunks_def c u) (simp add: numeral_3_eq_3)
qed

text \<open>
  Claim C3. For a payload larger than the resolved single-upload threshold, with options
  that pass the checks, a chunk count within \<open>BLOCK_BLOB_MAX_BLOCKS\<close>, remote calls that
  succeed and a progress callback that does not throw, the upload is, for every
  completion order: the create call, then the events of the worker pool, then one flush
  call at position \<open>size\<close>, with whose outcome it settles. The remote calls of the pool are
  the append calls of the expected chunks, issued in chunk order, and each of them has
  settled before the flush. With \<open>C\<close> the resolved chunk size there are \<open>ceil(size / C)\<close>
  chunks, each starts where the chunks before it end, and their lengths add up to
  \<open>size\<close>.
\<close>

theorem chunked_upload_appends_then_flushes:
  assumes "resolved_singleUploadThreshold L options < sz"
      and "sz \<le> FILE_MAX_SIZE_BYTES L"
      and "upload_options_valid L sz options"
      and "\<lceil>real_of_int sz / real_of_int (resolved_chunkSize L sz options)\<rceil>
             \<le> BLOCK_BLOB_MAX_BLOCKS L"
      and "createPath remote = Inr created"
      and "\<forall>position len. appendData remote position len = None"
      and "quiet_upload options"
  shows "(\<exists>events. uploadSeekableInternal L remote sched sz options =
                     (Some (settled (flushData remote sz)), CreateCall # events @ [FlushCall sz])
            \<and> filter remote_call events =
                map issue (expected_chunks sz (resolved_chunkSize L sz options))
            \<and> mset (appends_done events) =
                mset (expected_chunks sz (resolved_chunkSize L sz options)))
       \<and> length (expected_chunks sz (resolved_chunkSize L sz options)) =
           nat \<lceil>real_of_int sz / real_of_int (resolved_chunkSize L sz options)\<rceil>
       \<and> sum_list (map snd (expected_chunks sz (resolved_chunkSize L sz options))) = sz
       \<and> (\<forall>i < length (expected_chunks sz (resolved_chunkSize L sz options)).
             fst (expected_chunks sz (resolved_chunkSize L sz options) ! i) =
             sum_list (map snd (take i (expected_chunks sz (resolved_chunkSize L sz options)))))"
proof -
  let ?c = "resolved_chunkSize L sz options"
  let ?N = "resolved_maxConcurrency L options"
  let ?settle = "settle_operation remote (upload_onProgress options)"
  have v: "1 \<le> ?c" "?c \<le> FILE_UPLOAD_MAX_CHUNK_SIZE L" "0 < ?N"
      "1 \<le> resolved_singleUploadThreshold L options"
      "resolved_singleUploadThreshold L options \<le> FILE_MAX_SINGLE_UPLOAD_THRESHOLD L"
    using assms(3) by (simp_all add: upload_options_valid_def)
  have pos: "0 < sz" using v(4) assms(1) by linarith
  have nb: "numBlocks sz ?c \<le> BLOCK_BLOB_MAX_BLOCKS L"
    using assms(4) by (simp only: numBlocks_ceiling[OF v(1)])
  obtain events where
    br: "batch_run ?N ?settle sched (operations sz ?c (numBlocks sz ?c)) [] 0 = (Resolved, events)"
    and fr: "filter remote_call events = map issue (operations sz ?c (numBlocks sz ?c))"
    and dn: "mset (appends_done events) = mset ([] @ operations sz ?c (numBlocks sz ?c))"
    using batch_run_all_succeed[OF v(3), of ?settle sched "operations sz ?c (numBlocks sz ?c)" "[]" 0]
          settle_operation_succeeds[OF assms(6,7)]
    by blast
  have run: "uploadSeekableInternal L remote sched sz options =
               (Some (settled (flushData remote sz)), CreateCall # events @ [FlushCall sz])"
    using assms(1,2,5) v pos nb br by (simp add: uploadSeekableInternal_def)
  have ops: "operations sz ?c (numBlocks sz ?c) = expected_chunks sz ?c"
    by (rule operations_expected[OF v(1)])
  have 1: "\<exists>events. uploadSeekableInternal L remote sched sz options =
                     (Some (settled (flushData remote sz)), CreateCall # events @ [FlushCall sz])
            \<and> filter remote_call events = map issue (expected_chunks sz ?c)
            \<and> mset (appends_done events) = mset (expected_chunks sz ?c)"
    using run fr dn by (simp only: ops append_Nil) blast
  have 2: "length (expected_chunks sz ?c) = nat \<lceil>real_of_int sz / real_of_int ?c\<rceil>"
    by (rule length_expected_chunks)
  have 3: "sum_list (map snd (expected_chunks sz ?c)) = sz"
    by (rule expected_chunks_total[OF v(1) pos])
  have 4: "\<forall>i < length (expected_chunks sz ?c).
             fst (expected_chunks sz ?c ! i) = sum_list (map snd (take i (expected_chunks sz ?c)))"
    using expected_chunks_contiguous by blast
  from 1 2 3 4 show ?thesis by (intro conjI)
qed

theorem chunked_upload_witness:
  "resolved_singleUploadThreshold demo_limits
       (demo_upload_options (Some 4000000) (Some 3) (Some 1000000)) < 10000000
   \<and> 10000000 \<le> FILE_MAX_SIZE_BYTES demo_limits
   \<and> upload_options_valid demo_limits 10000000
         (demo_upload_options (Some 4000000) (Some 3) (Some 1000000))
   \<and> createPath demo_remote = Inr ''created''
   \<and> (\<forall>position len. appendData demo_remote position len = None)
   \<and> quiet_upload (demo_upload_options (Some 4000000) (Some 3) (Some 1000000))
   \<and> (\<exists>events. uploadSeekableInternal demo_limits demo_remote [2, 0, 1] 10000000
                   (demo_upload_options (Some 4000000) (Some 3) (Some 1000000)) =
                 (Some (Inr ''flushed''), CreateCall # events @ [FlushCall 10000000])
          \<and> filter remote_call events =
               [AppendCall 0 4000000, AppendCall 4000000 4000000, AppendCall 8000000 2000000])"
proof -
  let ?o = "demo_upload_options (Some 4000000) (Some 3) (Some 1000000)"
  have c: "resolved_chunkSize demo_limits 10000000 ?o = 4000000"
    by (simp add: resolved_chunkSize_def demo_upload_options_def unset_def or0_def)
  have a1: "resolved_singleUploadThreshold demo_limits ?o < 10000000"
    by (simp add: resolved_singleUploadThreshold_def demo_upload_options_def unset_def or0_def)
  have a2: "10000000 \<le> FILE_MAX_SIZE_BYTES demo_limits" by (simp add: demo_limits_def)
  have a3: "upload_options_valid demo_limits 10000000 ?o"
    by (simp add: upload_options_valid_def c)
       (simp add: resolved_maxConcurrency_def resolved_singleUploadThreshold_def
          demo_upload_options_def unset_def or0_def demo_limits_def)
  have a4: "\<lceil>real_of_int 10000000 / real_of_int (resolved_chunkSize demo_limits 10000000 ?o)\<rceil>
              \<le> BLOCK_BLOB_MAX_BLOCKS demo_limits"
    by (simp only: c) (simp add: ceiling_divide_eq_div demo_limits_def)
  have a5: "createPath demo_remote = Inr ''created''" by (simp add: demo_remote_def)
  have a6: "\<forall>position len. appendData demo_remote position len = None"
    by (simp add: demo_remote_def)
  have a7: "quiet_upload ?o" by (simp add: quiet_upload_def demo_upload_options_def)
  have f: "settled (flushData demo_remote 10000000) = Inr ''flushed''"
    by (simp add: settled_def demo_remote_def)
  from chunked_upload_appends_then_flushes [OF a1 a2 a3 a4 a5 a6 a7, of "[2, 0, 1]"]
  obtain events where
    r: "uploadSeekableInternal demo_limits demo_remote [2, 0, 1] 10000000 ?o =
          (Some (settled (flushData demo_remote 10000000)), CreateCall # events @ [FlushCall 10000000])"
    and e: "filter remote_call events =
              map issue (expected_chunks 10000000 (resolved_chunkSize demo_limits 10000000 ?o))"
    by blast
  have e': "filter remote_call events =
               [AppendCall 0 4000000, AppendCall 4000000 4000000, AppendCall 8000000 2000000]"
    using e by (simp only: c demo_expected_chunks) (simp add: issue_def)
  have "\<exists>events. uploadSeekableInternal demo_limits demo_remote [2, 0, 1] 10000000 ?o =
                 (Some (Inr ''flushed''), CreateCall # events @ [FlushCall 10000000])
          \<and> filter remote_call events =
               [AppendCall 0 4000000, AppendCall 4000000 4000000, AppendCall 8000000 2000000]"
    using r e' by (simp only: f) blast
  with a1 a2 a3 a5 a6 a7 show ?thesis by (intro conjI)
qed

text \<open>
  Claim C9. The worker pool is built with the resolved \<open>maxConcurrency\<close>, which the
  checks before it require to be positive. At every moment of the upload, that is after
  every prefix of its events, whatever the remote calls answer and in whatever order
  they settle, the number of append calls issued and not yet settled is at most that
  bound.
\<close>

theorem appends_in_flight_bounded:
  assumes "0 < resolved_maxConcurrency L options"
  shows "in_flight (take k (snd (uploadSeekableInternal L remote sched sz options)))
           \<le> resolved_maxConcurrency L options"
proof -
  let ?N = "resolved_maxConcurrency L options"
  let ?c = "resolved_chunkSize L sz options"
  let ?settle = "settle_operation remote (upload_onProgress options)"
  let ?batch = "batch_run ?N ?settle sched (operations sz ?c (numBlocks sz ?c)) [] 0"
  have one: "1 \<le> ?N" using assms by simp
  have sw: "stays_within ?N (int (length ([] :: (int \<times> int) list))) (snd ?batch)"
    using assms settle_operation_stays_within
    by (intro batch_run_stays_within) simp_all
  then have sw0: "stays_within ?N 0 (snd ?batch)" by simp
  have fin: "in_flight (snd ?batch) \<le> ?N"
    using stays_within_take[OF sw0, of "length (snd ?batch)"] by simp
  have "stays_within ?N 0 (snd (uploadSeekableInternal L remote sched sz options))"
  proof (cases ?batch)
    case (Pair r events)
    then show ?thesis
      using one sw0 fin
      by (cases r)
         (auto simp: uploadSeekableInternal_def stays_within_append split: sum.splits option.splits)
  qed
  from stays_within_take[OF this, of k] show ?thesis by simp
qed

theorem appends_in_flight_bounded_witness:
  "0 < resolved_maxConcurrency demo_limits (demo_upload_options (Some 4000000) (Some 2) (Some 1000000))
   \<and> in_flight (take 2 (snd (uploadSeekableInternal demo_limits demo_remote [1, 0] 10000000
                              (demo_upload_options (Some 4000000) (Some 2) (Some 1000000))))) \<le> 2
   \<and> in_flight (take 3 (snd (uploadSeekableInternal demo_limits demo_remote [1, 0] 10000000
                              (demo_upload_options (Some 4000000) (Some 2) (Some 1000000))))) \<le> 2"
proof -
  let ?o = "demo_upload_options (Some 4000000) (Some 2) (Some 1000000)"
  have n: "resolved_maxConcurrency demo_limits ?o = 2"
    by (simp add: resolved_maxConcurrency_def demo_upload_options_def unset_def or0_def)
  then have a: "0 < resolved_maxConcurrency demo_limits ?o" by simp
  from appends_in_flight_bounded [OF a, of 2 demo_remote "[1, 0]" 10000000]
       appends_in_flight_bounded [OF a, of 3 demo_remote "[1, 0]" 10000000] a
  show ?thesis by (simp only: n)
qed

text \<open>One run of the example, event by event: two calls in flight at most.\<close>

lemma demo_upload_run:
  "uploadSeekableInternal demo_limits demo_remote [1, 0] 10000000
     (demo_upload_options (Some 4000000) (Some 2) (Some 1000000)) =
   (Some (Inr ''flushed''),
    [CreateCall, AppendCall 0 4000000, AppendCall 4000000 4000000,
     AppendDone 4000000 4000000, UploadProgress 4000000,
     AppendCall 8000000 2000000,
     AppendDone 0 4000000, UploadProgress 8000000,
     AppendDone 8000000 2000000, UploadProgress 10000000,
     FlushCall 10000000])"
  by code_simp

end
